theory Spec2Isabelle
  imports Main "HOL-Library.Code_Target_Nat"
begin

section \<open>Python strings\<close>

text \<open>
  A Python \<^verbatim>\<open>str\<close> is a sequence of Unicode code points; the model keeps a code
  point as a natural number.  \<open>ascii\<close> turns an ASCII literal into such a string;
  code points beyond ASCII are written as numbers (the euro sign is 8364, the
  non-breaking space 160).
\<close>

type_synonym pystr = "nat list"

definition ascii :: "string \<Rightarrow> pystr" where
  "ascii = map of_char"

text \<open>
  \<^verbatim>\<open>str.isspace\<close>, which is also the class \<^verbatim>\<open>\s\<close> of a \<^verbatim>\<open>str\<close> pattern and the
  set that \<^verbatim>\<open>str.strip()\<close> removes: the ASCII controls 9-13 and 28-31, the space,
  U+0085, U+00A0, U+1680, U+2000-U+200A, U+2028, U+2029, U+202F, U+205F, U+3000.
\<close>

definition py_isspace :: "nat \<Rightarrow> bool" where
  "py_isspace c =
     ((9 \<le> c \<and> c \<le> 13) \<or> (28 \<le> c \<and> c \<le> 32) \<or> c = 133 \<or> c = 160 \<or> c = 5760 \<or>
      (8192 \<le> c \<and> c \<le> 8202) \<or> c = 8232 \<or> c = 8233 \<or> c = 8239 \<or> c = 8287 \<or>
      c = 12288)"

text \<open>
  Two facts about the interpreter that runs the program are parameters of the
  model.  \<open>decimal rt c\<close> is the table of decimal digits of its Unicode database:
  the digit value of the code point \<open>c\<close>, or \<open>None\<close> when \<open>c\<close> is no decimal digit
  (\<^verbatim>\<open>Py_UNICODE_TODECIMAL\<close> in CPython; the class \<^verbatim>\<open>\d\<close> of a \<^verbatim>\<open>str\<close> pattern and
  \<^verbatim>\<open>int()\<close> both read it, and the table grows with the Unicode version).
  \<open>int_max_str_digits rt\<close> is the limit on the digits of a string that \<^verbatim>\<open>int()\<close>
  converts (\<^verbatim>\<open>sys.get_int_max_str_digits()\<close>: 4300 unless configured, 0 for no limit).
\<close>

record runtime =
  int_max_str_digits :: nat
  decimal :: "nat \<Rightarrow> nat option"

definition py_isdigit :: "runtime \<Rightarrow> nat \<Rightarrow> bool" where
  "py_isdigit rt c = (decimal rt c \<noteq> None)"

definition digit_of :: "runtime \<Rightarrow> nat \<Rightarrow> nat" where
  "digit_of rt c = (case decimal rt c of None \<Rightarrow> 0 | Some v \<Rightarrow> v)"

text \<open>The table that has the ASCII digits and no others, for the examples.\<close>

definition ascii_runtime :: "nat \<Rightarrow> runtime" where
  "ascii_runtime n =
     \<lparr>int_max_str_digits = n,
      decimal = (\<lambda>c. if 48 \<le> c \<and> c \<le> 57 then Some (c - 48) else None)\<rparr>"

definition py_strip :: "pystr \<Rightarrow> pystr" where
  "py_strip s = rev (dropWhile py_isspace (rev (dropWhile py_isspace s)))"

text \<open>\<^verbatim>\<open>s.split(sep)\<close> for a separator of one character: never an empty list.\<close>

fun py_split :: "nat \<Rightarrow> pystr \<Rightarrow> pystr list" where
  "py_split sep [] = [[]]"
| "py_split sep (c # cs) =
     (if c = sep then [] # py_split sep cs
      else (case py_split sep cs of [] \<Rightarrow> [[c]] | p # ps \<Rightarrow> (c # p) # ps))"

section \<open>Python values and exceptions\<close>

datatype py_error = AttributeError | KeyError | IndexError | ValueError | TypeError

datatype pyval = VNone | VBool bool | VInt int | VStr pystr

text \<open>\<^verbatim>\<open>==\<close> on these values: \<^verbatim>\<open>bool\<close> is a subclass of \<^verbatim>\<open>int\<close>, so \<^verbatim>\<open>True == 1\<close>.\<close>

fun py_eq :: "pyval \<Rightarrow> pyval \<Rightarrow> bool" where
  "py_eq (VBool a) (VInt i) = (i = (if a then 1 else 0))"
| "py_eq (VInt i) (VBool a) = (i = (if a then 1 else 0))"
| "py_eq x y = (x = y)"

section \<open>\<^verbatim>\<open>int(str)\<close> and \<^verbatim>\<open>str(int)\<close>\<close>

text \<open>
  \<^verbatim>\<open>int(s)\<close> for a string: surrounding whitespace is stripped, one sign is allowed,
  then decimal digits, with single underscores between digits.  Anything else raises
  \<^verbatim>\<open>ValueError\<close>.  So does a literal with more digits than the limit of the
  interpreter.  The whitespace that \<^verbatim>\<open>int()\<close> strips is that of \<^verbatim>\<open>str.isspace\<close> without
  the four separators U+001C to U+001F: \<^verbatim>\<open>int()\<close> leaves them where they are, so
  \<^verbatim>\<open>int('4\x1f')\<close> raises \<^verbatim>\<open>ValueError\<close> although \<^verbatim>\<open>'4\x1f'.strip()\<close> is \<^verbatim>\<open>'4'\<close>.
\<close>

definition int_isspace :: "nat \<Rightarrow> bool" where
  "int_isspace c = (py_isspace c \<and> \<not> (28 \<le> c \<and> c \<le> 31))"

definition int_strip :: "pystr \<Rightarrow> pystr" where
  "int_strip s = rev (dropWhile int_isspace (rev (dropWhile int_isspace s)))"

fun int_body :: "runtime \<Rightarrow> pystr \<Rightarrow> bool" where
  "int_body rt [] = False"
| "int_body rt [c] = py_isdigit rt c"
| "int_body rt (c # d # r) = (py_isdigit rt c \<and> (if d = 95 then int_body rt r else int_body rt (d # r)))"

definition digits_val :: "runtime \<Rightarrow> pystr \<Rightarrow> nat" where
  "digits_val rt ds = foldl (\<lambda>a c. 10 * a + digit_of rt c) 0 ds"

definition py_int :: "runtime \<Rightarrow> pystr \<Rightarrow> py_error + int" where
  "py_int rt s =
     (let t = int_strip s;
          neg = (case t of [] \<Rightarrow> False | c # r \<Rightarrow> c = 45);
          body = (case t of [] \<Rightarrow> [] | c # r \<Rightarrow> if c = 45 \<or> c = 43 then r else t);
          ds = filter (\<lambda>c. c \<noteq> 95) body
      in if \<not> int_body rt body then Inl ValueError
         else if int_max_str_digits rt \<noteq> 0 \<and> int_max_str_digits rt < length ds then Inl ValueError
         else Inr (if neg then - int (digits_val rt ds) else int (digits_val rt ds)))"

fun nat_digits :: "nat \<Rightarrow> pystr" where
  "nat_digits n = (if n < 10 then [48 + n] else nat_digits (n div 10) @ [48 + n mod 10])"

definition py_str :: "int \<Rightarrow> pystr" where
  "py_str i = (if i < 0 then 45 # nat_digits (nat (- i)) else nat_digits (nat i))"

section \<open>Regular expressions\<close>

text \<open>
  The patterns of the source are transcribed into a datatype.  \<open>Digit\<close> is \<^verbatim>\<open>\d\<close>,
  \<open>Space\<close> is \<^verbatim>\<open>\s\<close>, \<open>AnyChar\<close> is \<^verbatim>\<open>.\<close> (every character but the newline),
  \<open>Lit c\<close> a literal character and \<open>OneOf cs\<close> a set \<^verbatim>\<open>[...]\<close>.  The flag \<open>ic\<close> of
  the matcher is \<^verbatim>\<open>re.IGNORECASE\<close>.
\<close>

datatype cls = Digit | Space | AnyChar | Lit nat | OneOf "nat list"

datatype rx = Zero | Eps | Cls cls | Seq rx rx | Alt rx rx | Star rx

text \<open>
  The code points a literal matches under \<^verbatim>\<open>re.IGNORECASE\<close>: both cases of an ASCII
  letter, and the four non-ASCII letters that fold to an ASCII one (U+212A for k,
  U+0130 and U+0131 for i, U+017F for s).  Every literal of the patterns matched with
  the flag is ASCII.
\<close>

definition icase_variants :: "nat \<Rightarrow> nat list" where
  "icase_variants l =
     (if 97 \<le> l \<and> l \<le> 122 then [l, l - 32] else if 65 \<le> l \<and> l \<le> 90 then [l, l + 32] else [l])
     @ (if l = 107 \<or> l = 75 then [8490] else [])
     @ (if l = 105 \<or> l = 73 then [304, 305] else [])
     @ (if l = 115 \<or> l = 83 then [383] else [])"

fun cls_match :: "runtime \<Rightarrow> bool \<Rightarrow> cls \<Rightarrow> nat \<Rightarrow> bool" where
  "cls_match rt ic Digit c = py_isdigit rt c"
| "cls_match rt ic Space c = py_isspace c"
| "cls_match rt ic AnyChar c = (c \<noteq> 10)"
| "cls_match rt ic (Lit l) c = (if ic then c \<in> set (icase_variants l) else c = l)"
| "cls_match rt ic (OneOf ls) c =
     (if ic then c \<in> set (concat (map icase_variants ls)) else c \<in> set ls)"

fun nullable :: "rx \<Rightarrow> bool" where
  "nullable Zero = False"
| "nullable Eps = True"
| "nullable (Cls cl) = False"
| "nullable (Seq r s) = (nullable r \<and> nullable s)"
| "nullable (Alt r s) = (nullable r \<or> nullable s)"
| "nullable (Star r) = True"

fun deriv :: "runtime \<Rightarrow> bool \<Rightarrow> nat \<Rightarrow> rx \<Rightarrow> rx" where
  "deriv rt ic c Zero = Zero"
| "deriv rt ic c Eps = Zero"
| "deriv rt ic c (Cls cl) = (if cls_match rt ic cl c then Eps else Zero)"
| "deriv rt ic c (Seq r s) =
     (if nullable r then Alt (Seq (deriv rt ic c r) s) (deriv rt ic c s) else Seq (deriv rt ic c r) s)"
| "deriv rt ic c (Alt r s) = Alt (deriv rt ic c r) (deriv rt ic c s)"
| "deriv rt ic c (Star r) = Seq (deriv rt ic c r) (Star r)"

text \<open>\<open>matches rt ic r s\<close>: the whole of \<open>s\<close> is a word of \<open>r\<close>.\<close>

fun matches :: "runtime \<Rightarrow> bool \<Rightarrow> rx \<Rightarrow> pystr \<Rightarrow> bool" where
  "matches rt ic r [] = nullable r"
| "matches rt ic r (c # cs) = matches rt ic (deriv rt ic c r) cs"

text \<open>\<^verbatim>\<open>r+\<close>, \<^verbatim>\<open>r?\<close> and \<^verbatim>\<open>r{m,n}\<close>.\<close>

definition Plus :: "rx \<Rightarrow> rx" where
  "Plus r = Seq r (Star r)"

definition Opt :: "rx \<Rightarrow> rx" where
  "Opt r = Alt r Eps"

fun rep :: "nat \<Rightarrow> nat \<Rightarrow> rx \<Rightarrow> rx" where
  "rep 0 0 r = Eps"
| "rep 0 (Suc n) r = Opt (Seq r (rep 0 n r))"
| "rep (Suc m) 0 r = Zero"
| "rep (Suc m) (Suc n) r = Seq r (rep m n r)"

text \<open>
  \<^verbatim>\<open>re.fullmatch\<close> of a pattern \<^verbatim>\<open>pre(grp)post\<close> with one capturing group, and
  \<^verbatim>\<open>match.group(1)\<close> of the result.  The match is a split of the whole string into
  three parts, one for each piece of the pattern; the anchors \<^verbatim>\<open>^\<close> and \<^verbatim>\<open>$\<close> at
  the two ends of a pattern add nothing to a full match.  The splits are tried with
  the longer prefix first, as the greedy quantifiers do.  (For the patterns of this
  program the split is unique, see \<open>split3_unique\<close>.)
\<close>

definition splits :: "'a list \<Rightarrow> ('a list \<times> 'a list) list" where
  "splits xs = map (\<lambda>k. (take k xs, drop k xs)) (rev [0..<Suc (length xs)])"

definition splits3 :: "'a list \<Rightarrow> ('a list \<times> 'a list \<times> 'a list) list" where
  "splits3 xs = concat (map (\<lambda>(a, r). map (\<lambda>(g, b). (a, g, b)) (splits r)) (splits xs))"

definition fullmatch1 :: "runtime \<Rightarrow> bool \<Rightarrow> rx \<Rightarrow> rx \<Rightarrow> rx \<Rightarrow> pystr \<Rightarrow> pystr option" where
  "fullmatch1 rt ic pre grp post s =
     (case List.find (\<lambda>(a, g, b). matches rt ic pre a \<and> matches rt ic grp g \<and> matches rt ic post b)
             (splits3 s) of
        None \<Rightarrow> None
      | Some (a, g, b) \<Rightarrow> Some g)"

section \<open>Field normalizers\<close>

text \<open>The group \<^verbatim>\<open>(\d{1,3}(?:\.\d{3})*)\<close> that four of the patterns share.\<close>

definition grouped_int :: rx where
  "grouped_int = Seq (rep 1 3 (Cls Digit)) (Star (Seq (Cls (Lit 46)) (rep 3 3 (Cls Digit))))"

text \<open>
  The \<^verbatim>\<open>try\<close> block of the four parsers: \<^verbatim>\<open>int(num_str.replace('.', ''))\<close>, with
  \<^verbatim>\<open>None\<close> for a \<^verbatim>\<open>ValueError\<close> or \<^verbatim>\<open>OverflowError\<close> (\<open>py_int\<close> raises nothing but
  \<^verbatim>\<open>ValueError\<close>).
\<close>

definition int_or_none :: "runtime \<Rightarrow> pystr \<Rightarrow> int option" where
  "int_or_none rt num_str =
     (case py_int rt (filter (\<lambda>c. c \<noteq> 46) num_str) of Inl e \<Rightarrow> None | Inr v \<Rightarrow> Some v)"

text \<open>\<^verbatim>\<open>^\s*(\d{1,3}(?:\.\d{3})*)[ \xa0]+E\s*$\<close>, where \<^verbatim>\<open>E\<close> stands for the euro sign (U+20AC, 8364)\<close>

definition price_post :: rx where
  "price_post = Seq (Plus (Cls (OneOf [32, 160]))) (Seq (Cls (Lit 8364)) (Star (Cls Space)))"

definition parse_price_eur :: "runtime \<Rightarrow> pystr \<Rightarrow> int option" where
  "parse_price_eur rt s =
     (case fullmatch1 rt False (Star (Cls Space)) grouped_int price_post s of
        None \<Rightarrow> None
      | Some num_str \<Rightarrow> int_or_none rt num_str)"

text \<open>\<^verbatim>\<open>^\s*(\d{1,3}(?:\.\d{3})*)\s+km\s*$\<close>, \<^verbatim>\<open>re.IGNORECASE\<close>\<close>

definition km_post :: rx where
  "km_post = Seq (Plus (Cls Space)) (Seq (Cls (Lit 107)) (Seq (Cls (Lit 109)) (Star (Cls Space))))"

definition parse_km :: "runtime \<Rightarrow> pystr \<Rightarrow> int option" where
  "parse_km rt s =
     (case fullmatch1 rt True (Star (Cls Space)) grouped_int km_post s of
        None \<Rightarrow> None
      | Some num_str \<Rightarrow> int_or_none rt num_str)"

text \<open>
  \<^verbatim>\<open>^\s*(\d{1,3}(?:\.\d{3})*)\s+kW(?:\s*\(.*?\))?\s*$\<close>, \<^verbatim>\<open>re.IGNORECASE\<close>.  The lazy
  \<^verbatim>\<open>.*?\<close> has the words of \<^verbatim>\<open>.*\<close>: laziness orders the attempts of the matcher and
  does not change which strings have a full match.
\<close>

definition kw_post :: rx where
  "kw_post =
     Seq (Plus (Cls Space)) (Seq (Cls (Lit 107)) (Seq (Cls (Lit 87))
       (Seq (Opt (Seq (Star (Cls Space))
                 (Seq (Cls (Lit 40)) (Seq (Star (Cls AnyChar)) (Cls (Lit 41))))))
            (Star (Cls Space)))))"

definition parse_kw :: "runtime \<Rightarrow> pystr \<Rightarrow> int option" where
  "parse_kw rt s =
     (case fullmatch1 rt True (Star (Cls Space)) grouped_int kw_post s of
        None \<Rightarrow> None
      | Some num_str \<Rightarrow> int_or_none rt num_str)"

text \<open>\<^verbatim>\<open>^\s*(\d{1,3}(?:\.\d{3})*)\s+min\.?\s*$\<close>, \<^verbatim>\<open>re.IGNORECASE\<close>\<close>

definition min_post :: rx where
  "min_post =
     Seq (Plus (Cls Space)) (Seq (Cls (Lit 109)) (Seq (Cls (Lit 105)) (Seq (Cls (Lit 110))
       (Seq (Opt (Cls (Lit 46))) (Star (Cls Space))))))"

definition parse_minutes :: "runtime \<Rightarrow> pystr \<Rightarrow> int option" where
  "parse_minutes rt s =
     (case fullmatch1 rt True (Star (Cls Space)) grouped_int min_post s of
        None \<Rightarrow> None
      | Some num_str \<Rightarrow> int_or_none rt num_str)"

text \<open>
  \<^verbatim>\<open>\s*(\d+)\s*\<close>, then the guard against a leading zero
  (\<^verbatim>\<open>len(num_str) > 1 and num_str.startswith('0')\<close>), then \<^verbatim>\<open>int(num_str)\<close>.
\<close>

definition parse_int :: "runtime \<Rightarrow> pystr \<Rightarrow> int option" where
  "parse_int rt s =
     (case fullmatch1 rt False (Star (Cls Space)) (Plus (Cls Digit)) (Star (Cls Space)) s of
        None \<Rightarrow> None
      | Some num_str \<Rightarrow>
          if 1 < length num_str \<and> take 1 num_str = [48] then None
          else (case py_int rt num_str of Inl e \<Rightarrow> None | Inr v \<Rightarrow> Some v))"

section \<open>The record store\<close>

text \<open>
  The store is a TinyDB table: documents (dictionaries) under document ids, in the
  order of insertion.  A query \<^verbatim>\<open>Result.key == v\<close> holds of a document that has the
  key with an equal value.  \<^verbatim>\<open>get\<close> returns the first document of a query (or
  \<^verbatim>\<open>None\<close>), \<^verbatim>\<open>search\<close> all of them, \<^verbatim>\<open>insert\<close> appends under the next id, and
  \<^verbatim>\<open>update(fields, doc_ids=ids)\<close> writes the fields into the documents of these ids
  and keeps their other keys.  The source opens the store when the module is loaded
  (lines 15 to 17); the model takes the store as a parameter of every operation and
  returns it.  A fresh document id is one more than the largest id of the table.
\<close>

type_synonym doc = "pystr \<rightharpoonup> pyval"

type_synonym store = "(nat \<times> doc) list"

definition query_eq :: "pystr \<Rightarrow> pyval \<Rightarrow> doc \<Rightarrow> bool" where
  "query_eq key v d = (case d key of None \<Rightarrow> False | Some x \<Rightarrow> py_eq x v)"

definition tdb_get :: "(doc \<Rightarrow> bool) \<Rightarrow> store \<Rightarrow> (nat \<times> doc) option" where
  "tdb_get q st = List.find (\<lambda>(i, d). q d) st"

definition tdb_search :: "(doc \<Rightarrow> bool) \<Rightarrow> store \<Rightarrow> store" where
  "tdb_search q st = filter (\<lambda>(i, d). q d) st"

definition next_id :: "store \<Rightarrow> nat" where
  "next_id st = Suc (fold max (map fst st) 0)"

definition tdb_insert :: "doc \<Rightarrow> store \<Rightarrow> store" where
  "tdb_insert d st = st @ [(next_id st, d)]"

definition tdb_update :: "doc \<Rightarrow> nat list \<Rightarrow> store \<Rightarrow> store" where
  "tdb_update flds ids st = map (\<lambda>(i, d). if i \<in> set ids then (i, d ++ flds) else (i, d)) st"

definition lookup_doc :: "store \<Rightarrow> nat \<Rightarrow> doc option" where
  "lookup_doc st i = map_of st i"

section \<open>The browser\<close>

text \<open>
  The browser collaborator (\<^verbatim>\<open>webest2\<close>) is outside the repository.  The model
  gives the site as a function from the URL loaded to what the queries of the
  program find on that page: the text of the pagination item, the \<^verbatim>\<open>href\<close> of
  every listing link in order, the \<^verbatim>\<open>textContent\<close> of the title, subtitle, price
  and price rating elements (\<open>None\<close> where \<^verbatim>\<open>get_obj\<close> finds no element), and the
  text of every key-features element.  The state of a run is the store and the
  list of the URLs loaded so far.
\<close>

record page =
  pg_pagination :: "pystr option"
  pg_links :: "pystr list"
  pg_title :: "pystr option"
  pg_subtitle :: "pystr option"
  pg_price :: "pystr option"
  pg_fairness :: "pystr option"
  pg_features :: "pystr list"

type_synonym web = "pystr \<Rightarrow> page"

record world =
  db :: store
  loads :: "pystr list"

section \<open>Discovery\<close>

definition URL_SEARCH :: pystr where
  "URL_SEARCH = ascii ''https://www.mobile.de/es/veh%C3%ADculos/buscar.html?sb=doc&od=down&vc=Car&ao=PICTURES&c=OffRoad&c=Limousine&cn=DE&con=USED&dam=0&ft=ELECTRICITY&ml=%3A10000&p=%3A60000&re=400&s=Car''"

definition K_URL :: pystr where
  "K_URL = ascii ''URL''"

definition K_needs_details :: pystr where
  "K_needs_details = ascii ''needs_details''"

text \<open>\<^verbatim>\<open>url.split('&')[0]\<close>; the split of a string is never empty.\<close>

definition clean_car_url :: "pystr \<Rightarrow> pystr" where
  "clean_car_url url = (case py_split 38 url of [] \<Rightarrow> [] | x # xs \<Rightarrow> x)"

text \<open>
  The loop over the links of a page, on the store and \<^verbatim>\<open>n_adds\<close>
  (\<^verbatim>\<open>n_skips\<close> is counted and never read).
\<close>

fun add_links :: "pystr list \<Rightarrow> store \<Rightarrow> nat \<Rightarrow> store \<times> nat" where
  "add_links [] st n_adds = (st, n_adds)"
| "add_links (href # hs) st n_adds =
     (let car_url = clean_car_url href in
      if tdb_get (query_eq K_URL (VStr car_url)) st = None
      then add_links hs
             (tdb_insert [K_URL \<mapsto> VStr car_url, K_needs_details \<mapsto> VBool True] st)
             (n_adds + 1)
      else add_links hs st n_adds)"

definition perform_search_in_pag_num :: "web \<Rightarrow> world \<Rightarrow> int \<Rightarrow> bool \<times> world" where
  "perform_search_in_pag_num site w pag_num =
     (let url_search_pag = URL_SEARCH @ ascii ''&pageNumber='' @ py_str pag_num;
          w1 = w\<lparr>loads := loads w @ [url_search_pag]\<rparr>;
          (st, n_adds) = add_links (pg_links (site url_search_pag)) (db w1) 0
      in (1 \<le> n_adds, w1\<lparr>db := st\<rparr>))"

text \<open>The loop of \<open>perform_search\<close> over \<^verbatim>\<open>range(1, pages_num + 1)\<close>, with its \<^verbatim>\<open>break\<close>.\<close>

fun search_pages :: "web \<Rightarrow> world \<Rightarrow> int list \<Rightarrow> world" where
  "search_pages site w [] = w"
| "search_pages site w (pag_num # ps) =
     (case perform_search_in_pag_num site w pag_num of
        (cont, w1) \<Rightarrow> if \<not> cont then w1 else search_pages site w1 ps)"

definition perform_search :: "runtime \<Rightarrow> web \<Rightarrow> world \<Rightarrow> world \<times> py_error option" where
  "perform_search rt site w =
     (let w1 = w\<lparr>loads := loads w @ [URL_SEARCH]\<rparr> in
      case pg_pagination (site URL_SEARCH) of
        None \<Rightarrow> (w1, Some AttributeError)
      | Some text \<Rightarrow>
          (case py_int rt text of
             Inl e \<Rightarrow> (w1, Some e)
           | Inr pages_num \<Rightarrow> (search_pages site w1 [1..pages_num], None)))"

section \<open>Details\<close>

definition K_title :: pystr where
  "K_title = ascii ''title''"

definition K_subtitle :: pystr where
  "K_subtitle = ascii ''subtitle''"

definition K_price :: pystr where
  "K_price = ascii ''price''"

definition K_price_fairness :: pystr where
  "K_price_fairness = ascii ''price fairness''"

definition K_Kilometraje :: pystr where
  "K_Kilometraje = ascii ''Kilometraje''"

definition K_Potencia :: pystr where
  "K_Potencia = ascii ''Potencia''"

definition K_Potencia_Kw :: pystr where
  "K_Potencia_Kw = ascii ''Potencia (Kw)''"

definition K_Potentia_detalle :: pystr where
  "K_Potentia_detalle = ascii ''Potentia detalle''"

definition K_Tiempo_de_carga :: pystr where
  "K_Tiempo_de_carga = ascii ''Tiempo de carga r'' @ [225] @ ascii ''pida''"

definition K_Tiempo_de_carga_mins :: pystr where
  "K_Tiempo_de_carga_mins = ascii ''Tiempo de carga r'' @ [225] @ ascii ''pida (mins)''"

definition K_Autonomia_WLTP :: pystr where
  "K_Autonomia_WLTP = ascii ''Autonom'' @ [237] @ ascii ''a (WLTP)''"

definition K_Autonomia_WLTP_Km :: pystr where
  "K_Autonomia_WLTP_Km = ascii ''Autonom'' @ [237] @ ascii ''a WLTP (Km)''"

definition K_Propietarios :: pystr where
  "K_Propietarios = ascii ''Propietarios anteriores''"

text \<open>An \<^verbatim>\<open>int | None\<close> as a stored value.\<close>

definition opt_int :: "int option \<Rightarrow> pyval" where
  "opt_int r = (case r of None \<Rightarrow> VNone | Some i \<Rightarrow> VInt i)"

text \<open>
  The loop that fills \<^verbatim>\<open>info_pairs_raw\<close>: the text of an element is split at the
  newlines, the parts are stripped, the first is the key and the second the value
  (\<^verbatim>\<open>IndexError\<close> when there is no second part).  A later element overwrites an
  earlier one of the same key.
\<close>

fun read_info_pairs :: "pystr list \<Rightarrow> (pystr \<rightharpoonup> pystr) \<Rightarrow> py_error + (pystr \<rightharpoonup> pystr)" where
  "read_info_pairs [] raw = Inr raw"
| "read_info_pairs (t # ts) raw =
     (case map py_strip (py_split 10 t) of
        k # v # rest \<Rightarrow> read_info_pairs ts (raw(k \<mapsto> v))
      | _ \<Rightarrow> Inl IndexError)"

text \<open>
  \<^verbatim>\<open>if (val := info_pairs_raw.get(label)):\<close> takes the branch for a value that is
  there and not the empty string.
\<close>

definition truthy :: "pystr option \<Rightarrow> pystr option" where
  "truthy r = (case r of None \<Rightarrow> None | Some val \<Rightarrow> if val = [] then None else Some val)"

definition parse_info_pairs :: "runtime \<Rightarrow> (pystr \<rightharpoonup> pystr) \<Rightarrow> doc" where
  "parse_info_pairs rt raw =
     (let ip0 = Map.empty;
          ip1 = (case truthy (raw K_Kilometraje) of
                   None \<Rightarrow> ip0
                 | Some val \<Rightarrow> ip0(K_Kilometraje \<mapsto> opt_int (parse_km rt val)));
          ip2 = (case truthy (raw K_Potencia) of
                   None \<Rightarrow> ip1
                 | Some val \<Rightarrow> ip1(K_Potencia_Kw \<mapsto> opt_int (parse_kw rt val),
                                  K_Potentia_detalle \<mapsto> VStr val));
          ip3 = (case truthy (raw K_Tiempo_de_carga) of
                   None \<Rightarrow> ip2
                 | Some val \<Rightarrow> ip2(K_Tiempo_de_carga_mins \<mapsto> opt_int (parse_minutes rt val)));
          ip4 = (case truthy (raw K_Autonomia_WLTP) of
                   None \<Rightarrow> ip3
                 | Some val \<Rightarrow> ip3(K_Autonomia_WLTP_Km \<mapsto> opt_int (parse_km rt val)));
          ip5 = (case truthy (raw K_Propietarios) of
                   None \<Rightarrow> ip4
                 | Some val \<Rightarrow> ip4(K_Propietarios \<mapsto> opt_int (parse_int rt val)))
      in ip5)"

text \<open>
  The body of the loop of \<open>fetch_details\<close> from the loaded page to \<^verbatim>\<open>car_data\<close> as
  it is passed to \<^verbatim>\<open>update\<close>.  \<^verbatim>\<open>o.get_attribute\<close> on the \<^verbatim>\<open>None\<close> of a missing element
  raises \<^verbatim>\<open>AttributeError\<close>; only the subtitle has the guard \<^verbatim>\<open>if o else ''\<close>.
\<close>

definition car_details :: "runtime \<Rightarrow> page \<Rightarrow> py_error + doc" where
  "car_details rt pg =
     (case pg_title pg of
        None \<Rightarrow> Inl AttributeError
      | Some car_title \<Rightarrow>
     (let car_subtitle = (case pg_subtitle pg of None \<Rightarrow> [] | Some t \<Rightarrow> t) in
      case pg_price pg of
        None \<Rightarrow> Inl AttributeError
      | Some car_price \<Rightarrow>
     (case pg_fairness pg of
        None \<Rightarrow> Inl AttributeError
      | Some car_price_fairness \<Rightarrow>
     (let car_data = [K_title \<mapsto> VStr car_title,
                      K_subtitle \<mapsto> VStr car_subtitle,
                      K_price \<mapsto> opt_int (parse_price_eur rt car_price),
                      K_price_fairness \<mapsto> VStr car_price_fairness] in
      case read_info_pairs (pg_features pg) Map.empty of
        Inl e \<Rightarrow> Inl e
      | Inr info_pairs_raw \<Rightarrow>
          Inr ((car_data ++ parse_info_pairs rt info_pairs_raw)
                 (K_needs_details \<mapsto> VBool False))))))"

text \<open>
  The loop of \<open>fetch_details\<close> over the snapshot \<^verbatim>\<open>cars_to_update\<close>.  An exception
  ends the run with the store as the earlier iterations left it.  \<^verbatim>\<open>car_entry['URL']\<close>
  raises \<^verbatim>\<open>KeyError\<close> on a document without the key; a URL that is no string is
  refused by the browser (modelled as \<^verbatim>\<open>TypeError\<close>).
\<close>

fun fetch_loop :: "runtime \<Rightarrow> web \<Rightarrow> world \<Rightarrow> (nat \<times> doc) list \<Rightarrow> world \<times> py_error option" where
  "fetch_loop rt site w [] = (w, None)"
| "fetch_loop rt site w ((doc_id, car_entry) # rest) =
     (case car_entry K_URL of
        None \<Rightarrow> (w, Some KeyError)
      | Some (VStr car_url) \<Rightarrow>
          (let w1 = w\<lparr>loads := loads w @ [car_url]\<rparr> in
           case car_details rt (site car_url) of
             Inl e \<Rightarrow> (w1, Some e)
           | Inr car_data \<Rightarrow>
               fetch_loop rt site (w1\<lparr>db := tdb_update car_data [doc_id] (db w1)\<rparr>) rest)
      | Some other \<Rightarrow> (w, Some TypeError))"

definition fetch_details :: "runtime \<Rightarrow> web \<Rightarrow> world \<Rightarrow> world \<times> py_error option" where
  "fetch_details rt site w =
     fetch_loop rt site w (tdb_search (query_eq K_needs_details (VBool True)) (db w))"

section \<open>Grouped integers, as the specification words them\<close>

text \<open>
  A grouped integer is a leading group of one to three digits and then groups of
  exactly three digits, each after a separator \<^verbatim>\<open>.\<close> (code point 46): \<open>token g0 gs\<close>
  is the text of the groups \<open>g0\<close> and \<open>gs\<close>, and \<open>grouped rt g0 gs\<close> says that their
  sizes and characters are right.  \<open>well_grouped rt t\<close> decides whether a text is such
  a token, by splitting it at the separators.
\<close>

definition grouped :: "runtime \<Rightarrow> pystr \<Rightarrow> pystr list \<Rightarrow> bool" where
  "grouped rt g0 gs =
     (1 \<le> length g0 \<and> length g0 \<le> 3 \<and> list_all (py_isdigit rt) g0 \<and>
      list_all (\<lambda>g. length g = 3 \<and> list_all (py_isdigit rt) g) gs)"

definition token :: "pystr \<Rightarrow> pystr list \<Rightarrow> pystr" where
  "token g0 gs = g0 @ concat (map (\<lambda>g. 46 # g) gs)"

definition well_grouped :: "runtime \<Rightarrow> pystr \<Rightarrow> bool" where
  "well_grouped rt t = (case py_split 46 t of [] \<Rightarrow> False | g0 # gs \<Rightarrow> grouped rt g0 gs)"

text \<open>The characters of a numeric token: digits and the separator.\<close>

definition tok_char :: "runtime \<Rightarrow> nat \<Rightarrow> bool" where
  "tok_char rt c = (py_isdigit rt c \<or> c = 46)"

text \<open>
  A run of digits is within the limit of the interpreter when there is no limit
  (the limit is 0) or the run has no more digits than the limit.
\<close>

definition within_limit :: "runtime \<Rightarrow> pystr \<Rightarrow> bool" where
  "within_limit rt ds = (int_max_str_digits rt = 0 \<or> length ds \<le> int_max_str_digits rt)"

text \<open>
  What the proofs use of the table of decimal digits: a decimal digit is no
  whitespace, no sign, no full stop and no underscore (these characters are in other
  categories of every Unicode version).
\<close>

definition decimal_ok :: "runtime \<Rightarrow> bool" where
  "decimal_ok rt =
     (\<forall>c. decimal rt c \<noteq> None \<longrightarrow>
        \<not> py_isspace c \<and> c \<noteq> 43 \<and> c \<noteq> 45 \<and> c \<noteq> 46 \<and> c \<noteq> 95)"

section \<open>Notions of the specification for the two stages\<close>

text \<open>
  A pending record as discovery creates it, and the test whether an identity is in
  the store.
\<close>

definition pending_doc :: "pystr \<Rightarrow> doc" where
  "pending_doc u = [K_URL \<mapsto> VStr u, K_needs_details \<mapsto> VBool True]"

definition present :: "store \<Rightarrow> pystr \<Rightarrow> bool" where
  "present st u = list_ex (\<lambda>(i, d). d K_URL = Some (VStr u)) st"

text \<open>
  The identities that a page adds: those not yet in the store, each once, in the
  order of their first occurrence.
\<close>

fun nub :: "'a list \<Rightarrow> 'a list" where
  "nub [] = []"
| "nub (x # xs) = x # nub (filter (\<lambda>y. y \<noteq> x) xs)"

definition fresh :: "store \<Rightarrow> pystr list \<Rightarrow> pystr list" where
  "fresh st us = nub (filter (\<lambda>u. \<not> present st u) us)"

text \<open>
  The URL of a listing page, the state after the pages of a list were all visited
  in turn (with no early exit), and whether visiting page \<open>j\<close> after the pages before
  it adds a record to the store.
\<close>

definition page_url :: "int \<Rightarrow> pystr" where
  "page_url pag_num = URL_SEARCH @ ascii ''&pageNumber='' @ py_str pag_num"

definition visit_all :: "web \<Rightarrow> world \<Rightarrow> int list \<Rightarrow> world" where
  "visit_all site w ps = foldl (\<lambda>w p. snd (perform_search_in_pag_num site w p)) w ps"

definition grows :: "web \<Rightarrow> world \<Rightarrow> int \<Rightarrow> bool" where
  "grows site w j = (length (db (visit_all site w [1..j - 1])) < length (db (visit_all site w [1..j])))"

text \<open>
  A record that awaits its details, and what a detail fetch writes: the record
  \<open>i\<close>, whose snapshot is \<open>e\<close>, has received the whole \<^verbatim>\<open>car_data\<close> of its page.
\<close>

definition pending :: "doc \<Rightarrow> bool" where
  "pending d = query_eq K_needs_details (VBool True) d"

definition written :: "runtime \<Rightarrow> web \<Rightarrow> world \<Rightarrow> world \<Rightarrow> nat \<Rightarrow> doc \<Rightarrow> bool" where
  "written rt site w w' i e =
     (\<exists>u car_data. e K_URL = Some (VStr u) \<and> car_details rt (site u) = Inr car_data \<and>
        lookup_doc (db w') i = map_option (\<lambda>d. d ++ car_data) (lookup_doc (db w) i))"

text \<open>
  The features panel as the specification reads it: an entry gives a label (its
  first line) and a value (its second line), both without the surrounding
  whitespace, and the panel gives a label the value of its last entry with that
  label.  \<open>field_after normalizer value before\<close> is what the record holds under the key
  of a label after the details were written, when the panel gives the label \<open>value\<close>
  and the record held \<open>before\<close> under the key: the integer of the normalizer, the
  marker \<^verbatim>\<open>None\<close> when the normalizer refuses the value, and what the record held
  before when the panel has no value for the label or an empty one.
\<close>

definition entry_label :: "pystr \<Rightarrow> pystr" where
  "entry_label t = (case map py_strip (py_split 10 t) of [] \<Rightarrow> [] | k # r \<Rightarrow> k)"

definition entry_value :: "pystr \<Rightarrow> pystr option" where
  "entry_value t = (case map py_strip (py_split 10 t) of k # v # r \<Rightarrow> Some v | _ \<Rightarrow> None)"

fun panel_value :: "pystr list \<Rightarrow> pystr \<Rightarrow> pystr option" where
  "panel_value [] label = None"
| "panel_value (t # ts) label =
     (case panel_value ts label of
        Some v \<Rightarrow> Some v
      | None \<Rightarrow> if entry_label t = label then entry_value t else None)"

definition field_after :: "(pystr \<Rightarrow> int option) \<Rightarrow> pystr option \<Rightarrow> pyval option \<Rightarrow> pyval option" where
  "field_after normalizer value before =
     (case value of
        None \<Rightarrow> before
      | Some val \<Rightarrow>
          if val = [] then before
          else (case normalizer val of None \<Rightarrow> Some VNone | Some n \<Rightarrow> Some (VInt n)))"

text \<open>
  The operations that a caller can run, in any order and on any state of the site:
  a discovery run, the discovery of one page, and a details run.
\<close>

datatype op = Discover web | DiscoverPage web int | Details web

fun run_op :: "runtime \<Rightarrow> world \<Rightarrow> op \<Rightarrow> world" where
  "run_op rt w (Discover site) = fst (perform_search rt site w)"
| "run_op rt w (DiscoverPage site pag_num) = snd (perform_search_in_pag_num site w pag_num)"
| "run_op rt w (Details site) = fst (fetch_details rt site w)"

definition run_ops :: "runtime \<Rightarrow> world \<Rightarrow> op list \<Rightarrow> world" where
  "run_ops rt w ops = foldl (run_op rt) w ops"

section \<open>Example sites\<close>

text \<open>
  A listing of four pages whose third page repeats the first (two links of one car
  differ after the first \<^verbatim>\<open>&\<close> only), and detail pages for one pending car: one
  without subtitle and with an owner count \<^verbatim>\<open>01\<close>, one without the price rating,
  one without the price, one with every element, and one whose panel repeats
  labels and has an entry with an empty value.  The last site is a listing whose
  pagination item reads \<^verbatim>\<open>4\<close> and then the separator U+001F.
\<close>

definition link_A :: pystr where
  "link_A = ascii ''/es/detalles.html?id=101&sb=doc&ref=srp''"

definition link_A2 :: pystr where
  "link_A2 = ascii ''/es/detalles.html?id=101&ref=srp''"

definition link_B :: pystr where
  "link_B = ascii ''/es/detalles.html?id=102&sb=doc''"

definition link_C :: pystr where
  "link_C = ascii ''/es/detalles.html?id=103&sb=doc''"

definition link_D :: pystr where
  "link_D = ascii ''/es/detalles.html?id=104&sb=doc''"

definition listing_page :: "pystr list \<Rightarrow> page" where
  "listing_page ls =
     \<lparr>pg_pagination = Some (ascii ''4''), pg_links = ls, pg_title = None, pg_subtitle = None,
      pg_price = None, pg_fairness = None, pg_features = []\<rparr>"

definition scenario_site :: web where
  "scenario_site u =
     (if u = page_url 1 then listing_page [link_A, link_B]
      else if u = page_url 2 then listing_page [link_A2, link_C]
      else if u = page_url 3 then listing_page [link_A, link_B]
      else listing_page [link_D])"

definition empty_world :: world where
  "empty_world = \<lparr>db = [], loads = []\<rparr>"

definition car_url_1 :: pystr where
  "car_url_1 = ascii ''/es/detalles.html?id=101''"

definition one_pending :: world where
  "one_pending = \<lparr>db = [(1, pending_doc car_url_1)], loads = []\<rparr>"

definition detail_page ::
  "pystr option \<Rightarrow> pystr option \<Rightarrow> pystr option \<Rightarrow> pystr option \<Rightarrow> pystr list \<Rightarrow> page" where
  "detail_page t s p f fs =
     \<lparr>pg_pagination = None, pg_links = [], pg_title = t, pg_subtitle = s, pg_price = p,
      pg_fairness = f, pg_features = fs\<rparr>"

definition owners_site :: web where
  "owners_site u =
     detail_page (Some (ascii ''Tesla Model 3'')) None (Some (ascii ''39.900'' @ [160, 8364]))
       (Some (ascii ''Buen precio''))
       [ascii ''Kilometraje'' @ [10] @ ascii ''8.000 km'',
        ascii ''Propietarios anteriores'' @ [10] @ ascii ''01'']"

definition no_badge_site :: web where
  "no_badge_site u =
     detail_page (Some (ascii ''Tesla Model 3'')) (Some (ascii ''Long Range''))
       (Some (ascii ''39.900'' @ [160, 8364])) None
       [ascii ''Kilometraje'' @ [10] @ ascii ''8.000 km'']"

definition no_price_site :: web where
  "no_price_site u =
     detail_page (Some (ascii ''Tesla Model 3'')) (Some (ascii ''Long Range'')) None
       (Some (ascii ''Buen precio'')) [ascii ''Kilometraje'' @ [10] @ ascii ''8.000 km'']"

definition complete_site :: web where
  "complete_site u =
     detail_page (Some (ascii ''Tesla Model 3'')) (Some (ascii ''Long Range''))
       (Some (ascii ''39.900'' @ [160, 8364])) (Some (ascii ''Buen precio''))
       [ascii ''Kilometraje'' @ [10] @ ascii ''8.000 km'',
        ascii ''Potencia'' @ [10] @ ascii ''150 kW (204 cv)'']"

definition repeated_site :: web where
  "repeated_site u =
     detail_page (Some (ascii ''Tesla Model 3'')) (Some (ascii ''Long Range''))
       (Some (ascii ''39.900'' @ [160, 8364])) (Some (ascii ''Buen precio''))
       [ascii ''Kilometraje'' @ [10] @ ascii ''abc'',
        ascii ''Kilometraje'' @ [10] @ ascii ''8.000 km'',
        ascii ''Potencia'' @ [10] @ ascii ''150 kW'',
        ascii ''Potencia'' @ [10] @ ascii ''150 CV'',
        ascii ''Autonom'' @ [237] @ ascii ''a (WLTP)'' @ [10]]"

definition separator_site :: web where
  "separator_site u =
     \<lparr>pg_pagination = Some (ascii ''4'' @ [31]), pg_links = [link_A], pg_title = None,
      pg_subtitle = None, pg_price = None, pg_fairness = None, pg_features = []\<rparr>"

definition done_world :: world where
  "done_world = \<lparr>db = [(1, (pending_doc car_url_1)(K_needs_details \<mapsto> VBool False))], loads = []\<rparr>"

section \<open>The matcher\<close>

lemma ex_split_Cons:
  "(\<exists>u v. c # cs = u @ v \<and> P u v) \<longleftrightarrow> P [] (c # cs) \<or> (\<exists>u v. cs = u @ v \<and> P (c # u) v)"
proof
  assume "\<exists>u v. c # cs = u @ v \<and> P u v"
  then obtain u v where uv: "c # cs = u @ v" "P u v"
    by blast
  show "P [] (c # cs) \<or> (\<exists>u v. cs = u @ v \<and> P (c # u) v)"
  proof (cases u)
    case Nil
    with uv show ?thesis by simp
  next
    case (Cons a u')
    with uv show ?thesis by auto
  qed
next
  assume "P [] (c # cs) \<or> (\<exists>u v. cs = u @ v \<and> P (c # u) v)"
  then show "\<exists>u v. c # cs = u @ v \<and> P u v"
  proof
    assume "P [] (c # cs)"
    then show ?thesis
      by (intro exI[of _ "[]"] exI[of _ "c # cs"]) simp
  next
    assume "\<exists>u v. cs = u @ v \<and> P (c # u) v"
    then obtain u v where "cs = u @ v" "P (c # u) v"
      by blast
    then show ?thesis
      by (intro exI[of _ "c # u"] exI[of _ v]) simp
  qed
qed

lemma matches_Zero: "\<not> matches rt ic Zero w"
  by (induction w) auto

lemma matches_Eps: "matches rt ic Eps w \<longleftrightarrow> w = []"
  by (cases w) (auto simp: matches_Zero)

lemma matches_Cls: "matches rt ic (Cls cl) w \<longleftrightarrow> (\<exists>c. w = [c] \<and> cls_match rt ic cl c)"
  by (cases w) (auto simp: matches_Zero matches_Eps)

lemma matches_Alt: "matches rt ic (Alt r s) w \<longleftrightarrow> matches rt ic r w \<or> matches rt ic s w"
  by (induction w arbitrary: r s) auto

lemma matches_Seq:
  "matches rt ic (Seq r s) w \<longleftrightarrow> (\<exists>u v. w = u @ v \<and> matches rt ic r u \<and> matches rt ic s v)"
proof (induction w arbitrary: r s)
  case Nil
  show ?case by simp
next
  case (Cons c cs)
  show ?case
    unfolding ex_split_Cons[of c cs "\<lambda>u v. matches rt ic r u \<and> matches rt ic s v"]
    by (auto simp: matches_Alt Cons)
qed

lemma matches_Seq_Cls:
  "matches rt ic (Seq (Cls cl) r) w \<longleftrightarrow> (\<exists>c v. w = c # v \<and> cls_match rt ic cl c \<and> matches rt ic r v)"
proof (cases w)
  case Nil
  then show ?thesis by simp
next
  case (Cons c cs)
  have "matches rt ic (Seq Eps r) cs = matches rt ic r cs"
    by (simp add: matches_Seq matches_Eps)
  moreover have "\<not> matches rt ic (Seq Zero r) cs"
    by (simp add: matches_Seq matches_Zero)
  ultimately show ?thesis
    using Cons by simp
qed

lemma matches_Star:
  "matches rt ic (Star r) w \<longleftrightarrow>
     w = [] \<or> (\<exists>u v. w = u @ v \<and> u \<noteq> [] \<and> matches rt ic r u \<and> matches rt ic (Star r) v)"
proof (cases w)
  case Nil
  then show ?thesis by simp
next
  case (Cons c cs)
  show ?thesis
    unfolding Cons ex_split_Cons[of c cs "\<lambda>u v. u \<noteq> [] \<and> matches rt ic r u \<and> matches rt ic (Star r) v"]
    by (simp add: matches_Seq)
qed

lemma matches_Star_Cls: "matches rt ic (Star (Cls cl)) w \<longleftrightarrow> list_all (cls_match rt ic cl) w"
proof (induction w)
  case Nil
  show ?case by simp
next
  case (Cons c cs)
  have "matches rt ic (Star (Cls cl)) (c # cs) = matches rt ic (Seq (Cls cl) (Star (Cls cl))) (c # cs)"
    by simp
  also have "\<dots> = (cls_match rt ic cl c \<and> matches rt ic (Star (Cls cl)) cs)"
    unfolding matches_Seq_Cls by auto
  finally show ?case
    using Cons by simp
qed

lemma matches_Plus_Cls:
  "matches rt ic (Plus (Cls cl)) w \<longleftrightarrow> w \<noteq> [] \<and> list_all (cls_match rt ic cl) w"
  unfolding Plus_def matches_Seq_Cls matches_Star_Cls
  by (cases w) auto

lemma matches_Opt: "matches rt ic (Opt r) w \<longleftrightarrow> matches rt ic r w \<or> w = []"
  by (simp add: Opt_def matches_Alt matches_Eps)

lemma rep_1_3: "rep 1 3 r = Seq r (Opt (Seq r (Opt (Seq r Eps))))"
  by (simp add: eval_nat_numeral)

lemma rep_3_3: "rep 3 3 r = Seq r (Seq r (Seq r Eps))"
  by (simp add: eval_nat_numeral)

lemma length_3_conv: "length w = 3 \<longleftrightarrow> (\<exists>a b c. w = [a, b, c])"
  by (auto simp: eval_nat_numeral length_Suc_conv)

lemma length_13_conv:
  "1 \<le> length w \<and> length w \<le> 3 \<longleftrightarrow>
     (\<exists>a. w = [a]) \<or> (\<exists>a b. w = [a, b]) \<or> (\<exists>a b c. w = [a, b, c])"
proof -
  have "1 \<le> length w \<and> length w \<le> 3 \<longleftrightarrow> length w = 1 \<or> length w = 2 \<or> length w = 3"
    by arith
  then show ?thesis
    by (auto simp: eval_nat_numeral length_Suc_conv)
qed

lemma matches_digits3:
  "matches rt ic (rep 3 3 (Cls Digit)) w \<longleftrightarrow> length w = 3 \<and> list_all (py_isdigit rt) w"
  unfolding rep_3_3 length_3_conv matches_Seq_Cls matches_Eps
  by auto

lemma matches_digits13:
  "matches rt ic (rep 1 3 (Cls Digit)) w \<longleftrightarrow> 1 \<le> length w \<and> length w \<le> 3 \<and> list_all (py_isdigit rt) w"
  unfolding rep_1_3 conj_assoc[symmetric] length_13_conv matches_Seq_Cls matches_Opt matches_Eps
  by auto

lemma cls_match_dot: "cls_match rt ic (Lit 46) c \<longleftrightarrow> c = 46"
  by (simp add: icase_variants_def)

lemma matches_group:
  "matches rt ic (Seq (Cls (Lit 46)) (rep 3 3 (Cls Digit))) u \<longleftrightarrow>
     (\<exists>g. u = 46 # g \<and> length g = 3 \<and> list_all (py_isdigit rt) g)"
  unfolding matches_Seq_Cls cls_match_dot matches_digits3
  by auto

lemma matches_groups_intro:
  "list_all (\<lambda>g. length g = 3 \<and> list_all (py_isdigit rt) g) gs \<Longrightarrow>
   matches rt ic (Star (Seq (Cls (Lit 46)) (rep 3 3 (Cls Digit)))) (concat (map (\<lambda>g. 46 # g) gs))"
proof (induction gs)
  case Nil
  show ?case by simp
next
  case (Cons g gs)
  let ?tl = "concat (map (\<lambda>g. 46 # g) gs)"
  have hd: "matches rt ic (Seq (Cls (Lit 46)) (rep 3 3 (Cls Digit))) (46 # g)"
    using Cons.prems by (subst matches_group) simp
  have tl: "matches rt ic (Star (Seq (Cls (Lit 46)) (rep 3 3 (Cls Digit)))) ?tl"
    using Cons by simp
  have "\<exists>u v. (46 # g) @ ?tl = u @ v \<and> u \<noteq> [] \<and>
          matches rt ic (Seq (Cls (Lit 46)) (rep 3 3 (Cls Digit))) u \<and>
          matches rt ic (Star (Seq (Cls (Lit 46)) (rep 3 3 (Cls Digit)))) v"
    using hd tl by (intro exI[of _ "46 # g"] exI[of _ ?tl]) simp
  then have "matches rt ic (Star (Seq (Cls (Lit 46)) (rep 3 3 (Cls Digit)))) ((46 # g) @ ?tl)"
    by (subst matches_Star) blast
  then show ?case by simp
qed

lemma matches_groups_elim:
  "matches rt ic (Star (Seq (Cls (Lit 46)) (rep 3 3 (Cls Digit)))) w \<Longrightarrow>
   \<exists>gs. w = concat (map (\<lambda>g. 46 # g) gs) \<and> list_all (\<lambda>g. length g = 3 \<and> list_all (py_isdigit rt) g) gs"
proof (induction "length w" arbitrary: w rule: less_induct)
  case less
  show ?case
  proof (cases "w = []")
    case True
    then show ?thesis by (intro exI[of _ "[]"]) simp
  next
    case False
    from less.prems have "w = [] \<or> (\<exists>u v. w = u @ v \<and> u \<noteq> [] \<and>
        matches rt ic (Seq (Cls (Lit 46)) (rep 3 3 (Cls Digit))) u \<and>
        matches rt ic (Star (Seq (Cls (Lit 46)) (rep 3 3 (Cls Digit)))) v)"
      by (subst (asm) matches_Star) simp
    with False obtain u v where uv: "w = u @ v" "u \<noteq> []"
      "matches rt ic (Seq (Cls (Lit 46)) (rep 3 3 (Cls Digit))) u"
      "matches rt ic (Star (Seq (Cls (Lit 46)) (rep 3 3 (Cls Digit)))) v"
      by blast
    from uv(3) obtain g where g: "u = 46 # g" "length g = 3" "list_all (py_isdigit rt) g"
      unfolding matches_group by blast
    from uv(1,2) have "length v < length w" by simp
    from less.hyps[OF this uv(4)] obtain gs where
      gs: "v = concat (map (\<lambda>g. 46 # g) gs)" "list_all (\<lambda>g. length g = 3 \<and> list_all (py_isdigit rt) g) gs"
      by blast
    show ?thesis
      using uv(1) g gs by (intro exI[of _ "g # gs"]) simp
  qed
qed

lemma matches_grouped_int:
  "matches rt ic grouped_int w \<longleftrightarrow> (\<exists>g0 gs. grouped rt g0 gs \<and> w = token g0 gs)"
proof
  assume "matches rt ic grouped_int w"
  then obtain u v where uv: "w = u @ v" "matches rt ic (rep 1 3 (Cls Digit)) u"
      "matches rt ic (Star (Seq (Cls (Lit 46)) (rep 3 3 (Cls Digit)))) v"
    unfolding grouped_int_def matches_Seq by blast
  from matches_groups_elim[OF uv(3)] obtain gs where
    gs: "v = concat (map (\<lambda>g. 46 # g) gs)" "list_all (\<lambda>g. length g = 3 \<and> list_all (py_isdigit rt) g) gs"
    by blast
  from uv(2) have "1 \<le> length u \<and> length u \<le> 3 \<and> list_all (py_isdigit rt) u"
    unfolding matches_digits13 .
  then have "grouped rt u gs \<and> w = token u gs"
    using uv(1) gs unfolding grouped_def token_def by blast
  then show "\<exists>g0 gs. grouped rt g0 gs \<and> w = token g0 gs"
    by blast
next
  assume "\<exists>g0 gs. grouped rt g0 gs \<and> w = token g0 gs"
  then obtain g0 gs where g: "grouped rt g0 gs" "w = token g0 gs"
    by blast
  have "matches rt ic (rep 1 3 (Cls Digit)) g0"
    using g(1) unfolding grouped_def matches_digits13 by blast
  moreover have "matches rt ic (Star (Seq (Cls (Lit 46)) (rep 3 3 (Cls Digit)))) (concat (map (\<lambda>g. 46 # g) gs))"
    using g(1) by (intro matches_groups_intro) (simp add: grouped_def)
  ultimately show "matches rt ic grouped_int w"
    unfolding grouped_int_def matches_Seq g(2) token_def by blast
qed

lemma set_splits: "set (splits xs) = {(a, b). xs = a @ b}"
proof (intro equalityI subsetI)
  fix p
  assume "p \<in> set (splits xs)"
  then show "p \<in> {(a, b). xs = a @ b}"
    by (auto simp: splits_def)
next
  fix p
  assume "p \<in> {(a, b). xs = a @ b}"
  then obtain a b where p: "p = (a, b)" "xs = a @ b"
    by auto
  then have "p = (take (length a) xs, drop (length a) xs)"
    by simp
  moreover have "length a \<in> set (rev [0..<Suc (length xs)])"
    using p by simp
  ultimately have "p \<in> (\<lambda>k. (take k xs, drop k xs)) ` set (rev [0..<Suc (length xs)])"
    by (rule image_eqI)
  then show "p \<in> set (splits xs)"
    unfolding splits_def set_map .
qed

lemma set_splits3: "set (splits3 xs) = {(a, g, b). xs = a @ g @ b}"
  unfolding splits3_def by (auto simp: set_splits)

lemma fullmatch1_None:
  "fullmatch1 rt ic pre grp post s = None \<longleftrightarrow>
     \<not> (\<exists>a g b. s = a @ g @ b \<and> matches rt ic pre a \<and> matches rt ic grp g \<and> matches rt ic post b)"
proof -
  have "fullmatch1 rt ic pre grp post s = None \<longleftrightarrow>
        List.find (\<lambda>(a, g, b). matches rt ic pre a \<and> matches rt ic grp g \<and> matches rt ic post b) (splits3 s) = None"
    unfolding fullmatch1_def by (simp split: option.splits prod.splits)
  then show ?thesis
    by (simp add: find_None_iff set_splits3)
qed

lemma fullmatch1_Some:
  assumes "fullmatch1 rt ic pre grp post s = Some g"
  shows "\<exists>a b. s = a @ g @ b \<and> matches rt ic pre a \<and> matches rt ic grp g \<and> matches rt ic post b"
proof -
  from assms obtain a b where
    f: "List.find (\<lambda>(a, g, b). matches rt ic pre a \<and> matches rt ic grp g \<and> matches rt ic post b) (splits3 s) = Some (a, g, b)"
    unfolding fullmatch1_def by (auto split: option.splits prod.splits)
  then have "(a, g, b) \<in> set (splits3 s)" "matches rt ic pre a \<and> matches rt ic grp g \<and> matches rt ic post b"
    by (auto simp: find_Some_iff dest: nth_mem)
  then show ?thesis
    by (auto simp: set_splits3)
qed

lemma fullmatch1_unique:
  assumes "s = a @ g @ b" "matches rt ic pre a" "matches rt ic grp g" "matches rt ic post b"
    and uniq: "\<And>a' g' b'. s = a' @ g' @ b' \<Longrightarrow> matches rt ic pre a' \<Longrightarrow> matches rt ic grp g' \<Longrightarrow>
          matches rt ic post b' \<Longrightarrow> g' = g"
  shows "fullmatch1 rt ic pre grp post s = Some g"
proof (cases "fullmatch1 rt ic pre grp post s")
  case None
  with assms(1-4) show ?thesis
    unfolding fullmatch1_None by blast
next
  case (Some g')
  from fullmatch1_Some[OF this] uniq have "g' = g"
    by blast
  with Some show ?thesis by simp
qed

section \<open>Tokens and the captured group\<close>

lemma digit_facts:
  assumes "decimal_ok rt" "py_isdigit rt c"
  shows "\<not> py_isspace c" "c \<noteq> 43" "c \<noteq> 45" "c \<noteq> 46" "c \<noteq> 95"
  using assms by (auto simp: decimal_ok_def py_isdigit_def)

lemma tok_char_not_space: "decimal_ok rt \<Longrightarrow> tok_char rt c \<Longrightarrow> \<not> py_isspace c"
  by (auto simp: tok_char_def py_isspace_def dest: digit_facts(1))

lemma takeWhile_prefix:
  assumes "list_all P xs" "ys = [] \<or> \<not> P (hd ys)"
  shows "takeWhile P (xs @ ys) = xs" "dropWhile P (xs @ ys) = ys"
proof -
  have "takeWhile P ys = []" "dropWhile P ys = ys"
    using assms(2) by (cases ys; simp)+
  moreover have "\<And>x. x \<in> set xs \<Longrightarrow> P x"
    using assms(1) by (simp add: list_all_iff)
  ultimately show "takeWhile P (xs @ ys) = xs" "dropWhile P (xs @ ys) = ys"
    by (simp_all add: takeWhile_append2 dropWhile_append2)
qed

lemma split3_unique:
  assumes ok: "decimal_ok rt" and eq: "a @ g @ b = a' @ g' @ b'"
    and a: "list_all py_isspace a" "list_all py_isspace a'"
    and g: "g \<noteq> []" "g' \<noteq> []" "list_all (tok_char rt) g" "list_all (tok_char rt) g'"
    and nb: "b = [] \<or> \<not> tok_char rt (hd b)" "b' = [] \<or> \<not> tok_char rt (hd b')"
  shows "a = a' \<and> g = g' \<and> b = b'"
proof -
  have hd_g: "\<not> py_isspace (hd (g @ b))" "\<not> py_isspace (hd (g' @ b'))"
    using g by (cases g; cases g'; simp add: tok_char_not_space[OF ok])+
  have nonempty: "g @ b \<noteq> []" "g' @ b' \<noteq> []"
    using g by simp_all
  have "takeWhile py_isspace (a @ (g @ b)) = a" "dropWhile py_isspace (a @ (g @ b)) = g @ b"
    using a(1) hd_g(1) by (intro takeWhile_prefix; simp)+
  moreover have "takeWhile py_isspace (a' @ (g' @ b')) = a'"
    "dropWhile py_isspace (a' @ (g' @ b')) = g' @ b'"
    using a(2) hd_g(2) by (intro takeWhile_prefix; simp)+
  ultimately have aa: "a = a'" and rest: "g @ b = g' @ b'"
    using eq by simp_all
  have "takeWhile (tok_char rt) (g @ b) = g" "dropWhile (tok_char rt) (g @ b) = b"
    using g(3) nb(1) by (intro takeWhile_prefix; simp)+
  moreover have "takeWhile (tok_char rt) (g' @ b') = g'" "dropWhile (tok_char rt) (g' @ b') = b'"
    using g(4) nb(2) by (intro takeWhile_prefix; simp)+
  ultimately have "g = g'" "b = b'"
    using rest by simp_all
  with aa show ?thesis by simp
qed

lemma digit_tok: "py_isdigit rt c \<Longrightarrow> tok_char rt c"
  by (simp add: tok_char_def)

lemma digit_not_dot: "decimal_ok rt \<Longrightarrow> py_isdigit rt c \<Longrightarrow> c \<noteq> 46"
  by (rule digit_facts(4))

lemma token_tok_char:
  assumes "grouped rt g0 gs"
  shows "list_all (tok_char rt) (token g0 gs)" "token g0 gs \<noteq> []"
proof -
  have "list_all (tok_char rt) g0"
    using assms by (auto simp: grouped_def list_all_iff digit_tok)
  moreover have "list_all (\<lambda>g. length g = 3 \<and> list_all (py_isdigit rt) g) gs \<Longrightarrow>
      list_all (tok_char rt) (concat (map (\<lambda>g. 46 # g) gs))"
    by (induction gs) (auto simp: list_all_iff digit_tok tok_char_def)
  ultimately show "list_all (tok_char rt) (token g0 gs)"
    using assms by (simp add: token_def grouped_def)
  show "token g0 gs \<noteq> []"
    using assms by (auto simp: token_def grouped_def)
qed

lemma filter_digits:
  "decimal_ok rt \<Longrightarrow> list_all (py_isdigit rt) g \<Longrightarrow> filter (\<lambda>c. c \<noteq> 46) g = g"
  by (induction g) (auto simp: digit_not_dot)

lemma filter_groups:
  "decimal_ok rt \<Longrightarrow> list_all (\<lambda>g. length g = 3 \<and> list_all (py_isdigit rt) g) gs \<Longrightarrow>
   filter (\<lambda>c. c \<noteq> 46) (concat (map (\<lambda>g. 46 # g) gs)) = concat gs"
  by (induction gs) (auto simp: filter_digits)

lemma filter_token:
  "decimal_ok rt \<Longrightarrow> grouped rt g0 gs \<Longrightarrow>
   filter (\<lambda>c. c \<noteq> 46) (token g0 gs) = g0 @ concat gs"
  by (simp add: grouped_def token_def filter_digits filter_groups)

lemma digits_of_token:
  assumes "grouped rt g0 gs"
  shows "list_all (py_isdigit rt) (g0 @ concat gs)" "g0 @ concat gs \<noteq> []"
proof -
  have "list_all (\<lambda>g. length g = 3 \<and> list_all (py_isdigit rt) g) gs \<Longrightarrow> list_all (py_isdigit rt) (concat gs)"
    by (induction gs) auto
  then show "list_all (py_isdigit rt) (g0 @ concat gs)"
    using assms by (simp add: grouped_def)
  show "g0 @ concat gs \<noteq> []"
    using assms by (auto simp: grouped_def)
qed

lemma int_body_digits:
  "decimal_ok rt \<Longrightarrow> ds \<noteq> [] \<Longrightarrow> list_all (py_isdigit rt) ds \<Longrightarrow> int_body rt ds"
  by (induction rt ds rule: int_body.induct) (auto dest: digit_facts(5))

lemma digit_not_space: "decimal_ok rt \<Longrightarrow> py_isdigit rt c \<Longrightarrow> \<not> py_isspace c"
  by (rule digit_facts(1))

lemma int_strip_digits:
  assumes "decimal_ok rt" "ds \<noteq> []" "list_all (py_isdigit rt) ds"
  shows "int_strip ds = ds"
proof -
  have "\<not> int_isspace (hd ds)"
    using assms by (cases ds) (auto simp: int_isspace_def digit_not_space)
  then have 1: "dropWhile int_isspace ds = ds"
    using assms(2) by (cases ds) auto
  have "rev ds \<noteq> []" "list_all (py_isdigit rt) (rev ds)"
    using assms by (simp_all add: list_all_iff)
  then have "\<not> int_isspace (hd (rev ds))"
    using assms(1) by (cases "rev ds") (auto simp: int_isspace_def digit_not_space)
  then have 2: "dropWhile int_isspace (rev ds) = rev ds"
    using \<open>rev ds \<noteq> []\<close> by (cases "rev ds") auto
  show ?thesis
    by (simp add: int_strip_def 1 2)
qed

lemma filter_underscore_digits:
  "decimal_ok rt \<Longrightarrow> list_all (py_isdigit rt) ds \<Longrightarrow> filter (\<lambda>c. c \<noteq> 95) ds = ds"
  by (induction ds) (auto dest: digit_facts(5))

lemma py_int_digits:
  assumes "decimal_ok rt" "ds \<noteq> []" "list_all (py_isdigit rt) ds"
  shows "py_int rt ds =
     (if int_max_str_digits rt \<noteq> 0 \<and> int_max_str_digits rt < length ds then Inl ValueError else Inr (int (digits_val rt ds)))"
proof -
  obtain c r where cr: "ds = c # r"
    using assms(2) by (cases ds) auto
  with assms(1,3) have c: "c \<noteq> 45" "c \<noteq> 43"
    by (auto dest: digit_facts(2,3))
  show ?thesis
    unfolding py_int_def int_strip_digits[OF assms]
    using c int_body_digits[OF assms] filter_underscore_digits[OF assms(1,3)]
    by (simp add: cr Let_def)
qed

lemma int_or_none_token:
  assumes "decimal_ok rt" "grouped rt g0 gs"
  shows "int_or_none rt (token g0 gs) =
     (if int_max_str_digits rt \<noteq> 0 \<and> int_max_str_digits rt < length (g0 @ concat gs) then None
      else Some (int (digits_val rt (g0 @ concat gs))))"
  unfolding int_or_none_def filter_token[OF assms]
    py_int_digits[OF assms(1) digits_of_token(2)[OF assms(2)] digits_of_token(1)[OF assms(2)]]
  by simp

lemma grouped_fullmatch:
  assumes ok: "decimal_ok rt"
    and post: "\<And>b. matches rt ic post b \<Longrightarrow> b = [] \<or> py_isspace (hd b)"
    and s: "s = a @ token g0 gs @ b" and a: "list_all py_isspace a"
    and g: "grouped rt g0 gs" and b: "matches rt ic post b"
  shows "fullmatch1 rt ic (Star (Cls Space)) grouped_int post s = Some (token g0 gs)"
proof (rule fullmatch1_unique[OF s])
  show "matches rt ic (Star (Cls Space)) a"
    using a by (simp add: matches_Star_Cls list_all_iff)
  show "matches rt ic grouped_int (token g0 gs)"
    using g matches_grouped_int by blast
  show "matches rt ic post b"
    by (rule b)
next
  fix a' g' b'
  assume s': "s = a' @ g' @ b'" and m: "matches rt ic (Star (Cls Space)) a'"
    "matches rt ic grouped_int g'" "matches rt ic post b'"
  from m(2) obtain h0 hs where h: "grouped rt h0 hs" "g' = token h0 hs"
    unfolding matches_grouped_int by blast
  have "list_all py_isspace a'"
    using m(1) by (simp add: matches_Star_Cls list_all_iff)
  moreover have "b = [] \<or> \<not> tok_char rt (hd b)" "b' = [] \<or> \<not> tok_char rt (hd b')"
    using post[OF b] post[OF m(3)] tok_char_not_space[OF ok] by blast+
  ultimately have "a' = a \<and> g' = token g0 gs \<and> b' = b"
    using s s' a token_tok_char[OF g] token_tok_char[OF h(1)] h(2)
    by (intro split3_unique[OF ok]) simp_all
  then show "g' = token g0 gs"
    by blast
qed

lemma grouped_fullmatch_Some:
  assumes "fullmatch1 rt ic (Star (Cls Space)) grouped_int post s = Some g"
  shows "\<exists>a g0 gs b. s = a @ token g0 gs @ b \<and> list_all py_isspace a \<and> grouped rt g0 gs \<and>
           g = token g0 gs \<and> matches rt ic post b"
proof -
  from fullmatch1_Some[OF assms] obtain a b where
    ab: "s = a @ g @ b" "matches rt ic (Star (Cls Space)) a" "matches rt ic grouped_int g" "matches rt ic post b"
    by blast
  from ab(3) obtain g0 gs where g: "grouped rt g0 gs" "g = token g0 gs"
    unfolding matches_grouped_int by blast
  have "list_all py_isspace a"
    using ab(2) by (simp add: matches_Star_Cls list_all_iff)
  with ab g show ?thesis
    by blast
qed

lemma Plus_post_hd:
  assumes "matches rt ic (Seq (Plus (Cls cl)) r) b"
  shows "b \<noteq> [] \<and> cls_match rt ic cl (hd b)"
proof -
  from assms obtain u v where "b = u @ v" "matches rt ic (Plus (Cls cl)) u"
    unfolding matches_Seq by blast
  then show ?thesis
    unfolding matches_Plus_Cls by (cases u) auto
qed

lemma price_post_hd: "matches rt False price_post b \<Longrightarrow> b = [] \<or> py_isspace (hd b)"
  unfolding price_post_def by (drule Plus_post_hd) (auto simp: py_isspace_def)

lemma km_post_hd: "matches rt True km_post b \<Longrightarrow> b = [] \<or> py_isspace (hd b)"
  unfolding km_post_def by (drule Plus_post_hd) auto

lemma kw_post_hd: "matches rt True kw_post b \<Longrightarrow> b = [] \<or> py_isspace (hd b)"
  unfolding kw_post_def by (drule Plus_post_hd) auto

lemma min_post_hd: "matches rt True min_post b \<Longrightarrow> b = [] \<or> py_isspace (hd b)"
  unfolding min_post_def by (drule Plus_post_hd) auto

section \<open>The grouped-integer normalizers\<close>

lemma py_split_nosep:
  "sep \<notin> set g \<Longrightarrow> py_split sep g = [g]"
  "sep \<notin> set g \<Longrightarrow> py_split sep (g @ sep # r) = g # py_split sep r"
  by (induction g) auto

lemma py_split_token:
  assumes "46 \<notin> set g0" "list_all (\<lambda>g. 46 \<notin> set g) gs"
  shows "py_split 46 (token g0 gs) = g0 # gs"
  using assms unfolding token_def
proof (induction gs arbitrary: g0)
  case Nil
  then show ?case by (simp add: py_split_nosep)
next
  case (Cons g gs)
  have "py_split 46 (g0 @ 46 # (g @ concat (map (\<lambda>g. 46 # g) gs))) =
        g0 # py_split 46 (g @ concat (map (\<lambda>g. 46 # g) gs))"
    using Cons.prems(1) by (rule py_split_nosep(2))
  also have "py_split 46 (g @ concat (map (\<lambda>g. 46 # g) gs)) = g # gs"
    using Cons.prems(2) by (intro Cons.IH) simp_all
  finally show ?case by simp
qed

lemma digits_no_dot: "decimal_ok rt \<Longrightarrow> list_all (py_isdigit rt) g \<Longrightarrow> 46 \<notin> set g"
  by (auto simp: list_all_iff dest: digit_facts(4))

lemma well_grouped_token:
  assumes ok: "decimal_ok rt" and g: "grouped rt g0 gs"
  shows "well_grouped rt (token g0 gs)"
proof -
  from g have "46 \<notin> set g0" "list_all (\<lambda>g. 46 \<notin> set g) gs"
    by (auto simp: grouped_def list_all_iff dest: digits_no_dot[OF ok, unfolded list_all_iff])
  then have "py_split 46 (token g0 gs) = g0 # gs"
    by (rule py_split_token)
  with g show ?thesis
    by (simp add: well_grouped_def)
qed

lemma py_split_nonempty: "py_split sep s \<noteq> []"
  by (induction s) (auto split: list.splits)

lemma token_py_split: "py_split 46 t = g0 # gs \<Longrightarrow> t = token g0 gs"
proof (induction t arbitrary: g0 gs)
  case Nil
  then show ?case by (simp add: token_def)
next
  case (Cons c cs)
  show ?case
  proof (cases "c = 46")
    case True
    with Cons.prems have g0: "g0 = []" and gs: "gs = py_split 46 cs"
      by auto
    obtain h hs where h: "py_split 46 cs = h # hs"
      using py_split_nonempty[of 46 cs] by (cases "py_split 46 cs") auto
    have "cs = token h hs"
      by (rule Cons.IH[OF h])
    then show ?thesis
      unfolding g0 gs h True by (simp add: token_def)
  next
    case False
    obtain h hs where h: "py_split 46 cs = h # hs"
      using py_split_nonempty[of 46 cs] by (cases "py_split 46 cs") auto
    with False Cons.prems have "g0 = c # h" "gs = hs"
      by simp_all
    with Cons.IH[OF h] show ?thesis
      by (simp add: token_def)
  qed
qed

lemma well_grouped_iff:
  assumes ok: "decimal_ok rt"
  shows "well_grouped rt t \<longleftrightarrow> (\<exists>g0 gs. grouped rt g0 gs \<and> t = token g0 gs)"
proof
  assume "well_grouped rt t"
  then obtain g0 gs where "py_split 46 t = g0 # gs" "grouped rt g0 gs"
    by (auto simp: well_grouped_def split: list.splits)
  then show "\<exists>g0 gs. grouped rt g0 gs \<and> t = token g0 gs"
    using token_py_split by blast
next
  assume "\<exists>g0 gs. grouped rt g0 gs \<and> t = token g0 gs"
  then show "well_grouped rt t"
    using well_grouped_token[OF ok] by blast
qed

lemma reject_bad_token:
  assumes ok: "decimal_ok rt"
    and post: "\<And>b. matches rt ic post b \<Longrightarrow> b = [] \<or> py_isspace (hd b)"
    and t: "t \<noteq> []" "list_all (tok_char rt) t" "\<not> well_grouped rt t"
    and a: "list_all py_isspace a" and b: "b = [] \<or> \<not> tok_char rt (hd b)"
  shows "fullmatch1 rt ic (Star (Cls Space)) grouped_int post (a @ t @ b) = None"
proof (cases "fullmatch1 rt ic (Star (Cls Space)) grouped_int post (a @ t @ b)")
  case None
  then show ?thesis .
next
  case (Some g)
  from grouped_fullmatch_Some[OF this] obtain a' g0 gs b' where
    d: "a @ t @ b = a' @ token g0 gs @ b'" "list_all py_isspace a'" "grouped rt g0 gs"
       "matches rt ic post b'"
    by blast
  have "b' = [] \<or> \<not> tok_char rt (hd b')"
    using post[OF d(4)] tok_char_not_space[OF ok] by blast
  then have "a = a' \<and> t = token g0 gs \<and> b = b'"
    using d(1,2) a t(1,2) b token_tok_char[OF d(3)]
    by (intro split3_unique[OF ok]) simp_all
  with d(3) t(3) show ?thesis
    using well_grouped_token[OF ok] by blast
qed

lemma parse_price_eur_token:
  assumes "decimal_ok rt" "list_all py_isspace a" "grouped rt g0 gs" "matches rt False price_post b"
  shows "parse_price_eur rt (a @ token g0 gs @ b) =
     (if int_max_str_digits rt \<noteq> 0 \<and> int_max_str_digits rt < length (g0 @ concat gs) then None
      else Some (int (digits_val rt (g0 @ concat gs))))"
proof -
  have "fullmatch1 rt False (Star (Cls Space)) grouped_int price_post (a @ token g0 gs @ b) = Some (token g0 gs)"
    using assms(1) price_post_hd refl assms(2-4) by (rule grouped_fullmatch)
  then show ?thesis
    unfolding parse_price_eur_def by (simp add: int_or_none_token[OF assms(1,3)])
qed

lemma parse_km_token:
  assumes "decimal_ok rt" "list_all py_isspace a" "grouped rt g0 gs" "matches rt True km_post b"
  shows "parse_km rt (a @ token g0 gs @ b) =
     (if int_max_str_digits rt \<noteq> 0 \<and> int_max_str_digits rt < length (g0 @ concat gs) then None
      else Some (int (digits_val rt (g0 @ concat gs))))"
proof -
  have "fullmatch1 rt True (Star (Cls Space)) grouped_int km_post (a @ token g0 gs @ b) = Some (token g0 gs)"
    using assms(1) km_post_hd refl assms(2-4) by (rule grouped_fullmatch)
  then show ?thesis
    unfolding parse_km_def by (simp add: int_or_none_token[OF assms(1,3)])
qed

lemma parse_kw_token:
  assumes "decimal_ok rt" "list_all py_isspace a" "grouped rt g0 gs" "matches rt True kw_post b"
  shows "parse_kw rt (a @ token g0 gs @ b) =
     (if int_max_str_digits rt \<noteq> 0 \<and> int_max_str_digits rt < length (g0 @ concat gs) then None
      else Some (int (digits_val rt (g0 @ concat gs))))"
proof -
  have "fullmatch1 rt True (Star (Cls Space)) grouped_int kw_post (a @ token g0 gs @ b) = Some (token g0 gs)"
    using assms(1) kw_post_hd refl assms(2-4) by (rule grouped_fullmatch)
  then show ?thesis
    unfolding parse_kw_def by (simp add: int_or_none_token[OF assms(1,3)])
qed

lemma parse_minutes_token:
  assumes "decimal_ok rt" "list_all py_isspace a" "grouped rt g0 gs" "matches rt True min_post b"
  shows "parse_minutes rt (a @ token g0 gs @ b) =
     (if int_max_str_digits rt \<noteq> 0 \<and> int_max_str_digits rt < length (g0 @ concat gs) then None
      else Some (int (digits_val rt (g0 @ concat gs))))"
proof -
  have "fullmatch1 rt True (Star (Cls Space)) grouped_int min_post (a @ token g0 gs @ b) = Some (token g0 gs)"
    using assms(1) min_post_hd refl assms(2-4) by (rule grouped_fullmatch)
  then show ?thesis
    unfolding parse_minutes_def by (simp add: int_or_none_token[OF assms(1,3)])
qed

lemma parsers_reject:
  assumes "decimal_ok rt" "t \<noteq> []" "list_all (tok_char rt) t" "\<not> well_grouped rt t"
    "list_all py_isspace a" "b = [] \<or> \<not> tok_char rt (hd b)"
  shows "parse_price_eur rt (a @ t @ b) = None" "parse_km rt (a @ t @ b) = None"
    "parse_kw rt (a @ t @ b) = None" "parse_minutes rt (a @ t @ b) = None"
proof -
  have "fullmatch1 rt False (Star (Cls Space)) grouped_int price_post (a @ t @ b) = None"
    using assms(1) price_post_hd assms(2-6) by (rule reject_bad_token)
  then show "parse_price_eur rt (a @ t @ b) = None"
    unfolding parse_price_eur_def by simp
  have "fullmatch1 rt True (Star (Cls Space)) grouped_int km_post (a @ t @ b) = None"
    using assms(1) km_post_hd assms(2-6) by (rule reject_bad_token)
  then show "parse_km rt (a @ t @ b) = None"
    unfolding parse_km_def by simp
  have "fullmatch1 rt True (Star (Cls Space)) grouped_int kw_post (a @ t @ b) = None"
    using assms(1) kw_post_hd assms(2-6) by (rule reject_bad_token)
  then show "parse_kw rt (a @ t @ b) = None"
    unfolding parse_kw_def by simp
  have "fullmatch1 rt True (Star (Cls Space)) grouped_int min_post (a @ t @ b) = None"
    using assms(1) min_post_hd assms(2-6) by (rule reject_bad_token)
  then show "parse_minutes rt (a @ t @ b) = None"
    unfolding parse_minutes_def by simp
qed

text \<open>
  The table of the examples is a table of decimal digits as wanted, and with it
  \<open>digits_val\<close> reads decimal notation: it gives every number back from its digits.
\<close>

lemma decimal_ok_ascii: "decimal_ok (ascii_runtime n)"
  by (auto simp: decimal_ok_def ascii_runtime_def py_isspace_def split: if_splits)

lemma digits_val_snoc: "digits_val rt (ds @ [c]) = 10 * digits_val rt ds + digit_of rt c"
  by (simp add: digits_val_def)

lemma digits_val_nat_digits: "digits_val (ascii_runtime m) (nat_digits n) = n"
proof (induction n rule: nat_digits.induct)
  case (1 n)
  show ?case
  proof (cases "n < 10")
    case True
    then show ?thesis
      by (subst nat_digits.simps) (simp add: digits_val_def digit_of_def ascii_runtime_def)
  next
    case False
    with 1 have "digits_val (ascii_runtime m) (nat_digits (n div 10)) = n div 10"
      by simp
    with False show ?thesis
      by (subst nat_digits.simps) (simp add: digits_val_snoc digit_of_def ascii_runtime_def)
  qed
qed

section \<open>The discovery stage\<close>

lemma py_eq_VStr: "py_eq x (VStr u) \<longleftrightarrow> x = VStr u"
  by (cases x) auto

lemma tdb_get_URL_None: "tdb_get (query_eq K_URL (VStr u)) st = None \<longleftrightarrow> \<not> present st u"
  unfolding tdb_get_def find_None_iff present_def list_ex_iff query_eq_def
  by (auto simp: py_eq_VStr split: option.splits)

lemma K_URL_needs: "K_URL \<noteq> K_needs_details"
  by (simp add: K_URL_def K_needs_details_def ascii_def)

lemma pending_doc_URL: "pending_doc v K_URL = Some (VStr u) \<longleftrightarrow> u = v"
  using K_URL_needs by (auto simp: pending_doc_def)

lemma pending_doc_needs: "pending_doc v K_needs_details = Some (VBool True)"
  by (simp add: pending_doc_def)

lemma present_append: "present (a @ b) u \<longleftrightarrow> present a u \<or> present b u"
  by (simp add: present_def)

lemma present_insert: "present (tdb_insert (pending_doc v) st) u \<longleftrightarrow> present st u \<or> u = v"
  by (simp add: present_def tdb_insert_def pending_doc_URL)

lemma set_nub: "set (nub xs) = set xs"
proof (induction xs rule: nub.induct)
  case 1
  show ?case by simp
next
  case (2 x xs)
  then show ?case by auto
qed

lemma fresh_Cons_new:
  "\<not> present st u \<Longrightarrow>
   fresh st (u # us) = u # fresh (tdb_insert (pending_doc u) st) us"
proof -
  have "(\<lambda>y. \<not> present (tdb_insert (pending_doc u) st) y) = (\<lambda>y. \<not> present st y \<and> y \<noteq> u)"
    by (auto simp: present_insert)
  then show "\<not> present st u \<Longrightarrow> ?thesis"
    by (simp add: fresh_def)
qed

lemma fresh_Cons_old: "present st u \<Longrightarrow> fresh st (u # us) = fresh st us"
  by (simp add: fresh_def)

lemma add_links_spec:
  "add_links hs st n = (st', n') \<Longrightarrow>
   \<exists>new. st' = st @ new \<and> map snd new = map pending_doc (fresh st (map clean_car_url hs)) \<and>
         n' = n + length new"
proof (induction hs arbitrary: st n)
  case Nil
  then show ?case by (simp add: fresh_def)
next
  case (Cons h hs)
  let ?u = "clean_car_url h"
  show ?case
  proof (cases "present st ?u")
    case True
    with Cons.prems have "add_links hs st n = (st', n')"
      by (simp add: tdb_get_URL_None)
    from Cons.IH[OF this] show ?thesis
      using True by (simp add: fresh_Cons_old)
  next
    case False
    let ?st1 = "tdb_insert (pending_doc ?u) st"
    from False Cons.prems have "add_links hs ?st1 (n + 1) = (st', n')"
      by (simp add: tdb_get_URL_None pending_doc_def)
    from Cons.IH[OF this] obtain new1 where
      n1: "st' = ?st1 @ new1" "map snd new1 = map pending_doc (fresh ?st1 (map clean_car_url hs))"
          "n' = n + 1 + length new1"
      by blast
    let ?new = "(next_id st, pending_doc ?u) # new1"
    have "st' = st @ ?new \<and>
          map snd ?new = map pending_doc (fresh st (map clean_car_url (h # hs))) \<and>
          n' = n + length ?new"
      using n1 False by (simp add: tdb_insert_def fresh_Cons_new)
    then show ?thesis
      by blast
  qed
qed

lemma fold_max_ge: "a \<le> fold max xs (a::nat)" "x \<in> set xs \<Longrightarrow> x \<le> fold max xs a"
proof -
  have "a \<le> fold max xs a \<and> (\<forall>x \<in> set xs. x \<le> fold max xs a)"
  proof (induction xs arbitrary: a)
    case Nil
    show ?case by simp
  next
    case (Cons y ys)
    have "max y a \<le> fold max ys (max y a) \<and> (\<forall>x\<in>set ys. x \<le> fold max ys (max y a))"
      by (rule Cons.IH)
    then show ?case
      by auto
  qed
  then show "a \<le> fold max xs a" "x \<in> set xs \<Longrightarrow> x \<le> fold max xs a"
    by blast+
qed

lemma next_id_fresh: "next_id st \<notin> set (map fst st)"
proof
  assume "next_id st \<in> set (map fst st)"
  then have "next_id st \<le> fold max (map fst st) 0"
    by (rule fold_max_ge(2))
  then show False
    by (simp add: next_id_def)
qed

lemma distinct_insert: "distinct (map fst st) \<Longrightarrow> distinct (map fst (tdb_insert d st))"
  using next_id_fresh[of st] by (simp add: tdb_insert_def)

lemma add_links_distinct:
  "distinct (map fst st) \<Longrightarrow> add_links hs st n = (st', n') \<Longrightarrow> distinct (map fst st')"
proof (induction hs arbitrary: st n)
  case Nil
  then show ?case by simp
next
  case (Cons h hs)
  show ?case
  proof (cases "tdb_get (query_eq K_URL (VStr (clean_car_url h))) st = None")
    case True
    with Cons.prems(2) have
      "add_links hs (tdb_insert [K_URL \<mapsto> VStr (clean_car_url h), K_needs_details \<mapsto> VBool True] st) (n + 1) = (st', n')"
      by simp
    moreover have "distinct (map fst (tdb_insert [K_URL \<mapsto> VStr (clean_car_url h), K_needs_details \<mapsto> VBool True] st))"
      using Cons.prems(1) by (rule distinct_insert)
    ultimately show ?thesis
      using Cons.IH by blast
  next
    case False
    with Cons.prems(2) have "add_links hs st n = (st', n')"
      by simp
    with Cons.prems(1) show ?thesis
      using Cons.IH by blast
  qed
qed

lemma present_new:
  assumes "map snd new = map pending_doc us"
  shows "present new u \<longleftrightarrow> u \<in> set us"
proof -
  have "present new u \<longleftrightarrow> (\<exists>d \<in> set (map snd new). d K_URL = Some (VStr u))"
    by (force simp: present_def list_ex_iff)
  also have "\<dots> \<longleftrightarrow> u \<in> set us"
    unfolding assms by (auto simp: pending_doc_URL)
  finally show ?thesis .
qed

lemma set_fresh: "set (fresh st us) = {u \<in> set us. \<not> present st u}"
  by (simp add: fresh_def set_nub)

lemma add_links_present:
  assumes "add_links hs st n = (st', n')" "u \<in> set (map clean_car_url hs)"
  shows "present st' u"
proof -
  from add_links_spec[OF assms(1)] obtain new where
    new: "st' = st @ new" "map snd new = map pending_doc (fresh st (map clean_car_url hs))"
    by blast
  show ?thesis
    unfolding new(1) present_append present_new[OF new(2)] set_fresh
    using assms(2) by blast
qed

lemma fresh_all_present:
  assumes "\<And>u. u \<in> set us \<Longrightarrow> present st u"
  shows "fresh st us = []"
proof -
  have "filter (\<lambda>u. \<not> present st u) us = []"
    using assms by (simp add: filter_empty_conv)
  then show ?thesis
    by (simp add: fresh_def)
qed

lemma page_spec:
  assumes "perform_search_in_pag_num site w pag_num = (cont, w')"
  shows "\<exists>new. db w' = db w @ new \<and>
           map snd new = map pending_doc (fresh (db w) (map clean_car_url (pg_links (site (page_url pag_num))))) \<and>
           (cont \<longleftrightarrow> new \<noteq> []) \<and> loads w' = loads w @ [page_url pag_num]"
proof -
  obtain st n where a: "add_links (pg_links (site (page_url pag_num))) (db w) 0 = (st, n)"
    by (cases "add_links (pg_links (site (page_url pag_num))) (db w) 0") auto
  with assms have r: "cont = (1 \<le> n)" "db w' = st" "loads w' = loads w @ [page_url pag_num]"
    by (auto simp: perform_search_in_pag_num_def page_url_def Let_def)
  from add_links_spec[OF a] obtain new where
    new: "st = db w @ new"
      "map snd new = map pending_doc (fresh (db w) (map clean_car_url (pg_links (site (page_url pag_num)))))"
      "n = 0 + length new"
    by blast
  have "cont \<longleftrightarrow> new \<noteq> []"
    using r(1) new(3) by (cases new) auto
  with r new show ?thesis
    by blast
qed

lemma page_distinct:
  assumes "distinct (map fst (db w))" "perform_search_in_pag_num site w pag_num = (cont, w')"
  shows "distinct (map fst (db w'))"
proof -
  obtain st n where a: "add_links (pg_links (site (page_url pag_num))) (db w) 0 = (st, n)"
    by (cases "add_links (pg_links (site (page_url pag_num))) (db w) 0") auto
  with assms(2) have "db w' = st"
    by (auto simp: perform_search_in_pag_num_def page_url_def Let_def)
  with add_links_distinct[OF assms(1) a] show ?thesis
    by simp
qed


lemma visit_all_simps:
  "visit_all site w [] = w"
  "visit_all site w (p # ps) = visit_all site (snd (perform_search_in_pag_num site w p)) ps"
  "visit_all site w (ps @ [p]) = snd (perform_search_in_pag_num site (visit_all site w ps) p)"
  by (simp_all add: visit_all_def)

lemma search_pages_spec:
  "\<exists>k. k \<le> length ps \<and> (ps \<noteq> [] \<longrightarrow> 0 < k) \<and>
       search_pages site w ps = visit_all site w (take k ps) \<and>
       (\<forall>j. j + 1 < k \<longrightarrow>
          fst (perform_search_in_pag_num site (visit_all site w (take j ps)) (ps ! j))) \<and>
       (k < length ps \<longrightarrow>
          \<not> fst (perform_search_in_pag_num site (visit_all site w (take (k - 1) ps)) (ps ! (k - 1))))"
proof (induction ps arbitrary: w)
  case Nil
  show ?case by (simp add: visit_all_simps)
next
  case (Cons p ps)
  obtain cont w1 where c: "perform_search_in_pag_num site w p = (cont, w1)"
    by (cases "perform_search_in_pag_num site w p") auto
  show ?case
  proof (cases cont)
    case False
    have "search_pages site w (p # ps) = visit_all site w (take 1 (p # ps))"
      using c False by (simp add: visit_all_simps)
    moreover have "\<not> fst (perform_search_in_pag_num site (visit_all site w (take (1 - 1) (p # ps))) ((p # ps) ! (1 - 1)))"
      using c False by (simp add: visit_all_simps)
    ultimately show ?thesis
      by (intro exI[of _ 1]) simp
  next
    case True
    from Cons.IH[of w1] obtain k where k: "k \<le> length ps" "ps \<noteq> [] \<longrightarrow> 0 < k"
      "search_pages site w1 ps = visit_all site w1 (take k ps)"
      "\<forall>j. j + 1 < k \<longrightarrow>
          fst (perform_search_in_pag_num site (visit_all site w1 (take j ps)) (ps ! j))"
      "k < length ps \<longrightarrow>
          \<not> fst (perform_search_in_pag_num site (visit_all site w1 (take (k - 1) ps)) (ps ! (k - 1)))"
      by blast
    have 1: "search_pages site w (p # ps) = visit_all site w (take (Suc k) (p # ps))"
      using c True k(3) by (simp add: visit_all_simps)
    have 2: "fst (perform_search_in_pag_num site (visit_all site w (take j (p # ps))) ((p # ps) ! j))"
      if "j + 1 < Suc k" for j
    proof (cases j)
      case 0
      then show ?thesis
        using c True by (simp add: visit_all_simps)
    next
      case (Suc j')
      with that have "j' + 1 < k" by simp
      with k(4) show ?thesis
        using c Suc by (simp add: visit_all_simps)
    qed
    have 3: "\<not> fst (perform_search_in_pag_num site (visit_all site w (take (Suc k - 1) (p # ps))) ((p # ps) ! (Suc k - 1)))"
      if "Suc k < length (p # ps)"
    proof -
      from that have lt: "k < length ps" by simp
      with k(2) have pos: "0 < k" by auto
      then obtain k' where k': "k = Suc k'"
        by (cases k) auto
      from k(5) lt show ?thesis
        using c k' by (simp add: visit_all_simps)
    qed
    show ?thesis
      using k(1) 1 2 3 by (intro exI[of _ "Suc k"]) simp
  qed
qed

lemma loads_visit_all: "loads (visit_all site w ps) = loads w @ map page_url ps"
proof (induction ps arbitrary: w)
  case Nil
  show ?case by (simp add: visit_all_simps)
next
  case (Cons p ps)
  obtain cont w1 where c: "perform_search_in_pag_num site w p = (cont, w1)"
    by (cases "perform_search_in_pag_num site w p") auto
  from page_spec[OF c] have "loads w1 = loads w @ [page_url p]"
    by blast
  then show ?case
    using c Cons.IH[of w1] by (simp add: visit_all_simps)
qed

lemma visit_all_db:
  "\<exists>new. db (visit_all site w ps) = db w @ new \<and> set (map snd new) \<subseteq> range pending_doc"
proof (induction ps arbitrary: w)
  case Nil
  show ?case by (simp add: visit_all_simps)
next
  case (Cons p ps)
  obtain cont w1 where c: "perform_search_in_pag_num site w p = (cont, w1)"
    by (cases "perform_search_in_pag_num site w p") auto
  from page_spec[OF c] obtain new0 where
    n0: "db w1 = db w @ new0" "map snd new0 = map pending_doc (fresh (db w) (map clean_car_url (pg_links (site (page_url p)))))"
    by blast
  from Cons.IH[of w1] obtain new1 where
    n1: "db (visit_all site w1 ps) = db w1 @ new1" "set (map snd new1) \<subseteq> range pending_doc"
    by blast
  have "set (map snd new0) \<subseteq> range pending_doc"
    unfolding n0(2) by auto
  with n0(1) n1 have "db (visit_all site w (p # ps)) = db w @ (new0 @ new1) \<and>
      set (map snd (new0 @ new1)) \<subseteq> range pending_doc"
    using c by (simp add: visit_all_simps)
  then show ?case
    by blast
qed

lemma visit_all_distinct:
  "distinct (map fst (db w)) \<Longrightarrow> distinct (map fst (db (visit_all site w ps)))"
proof (induction ps arbitrary: w)
  case Nil
  then show ?case by (simp add: visit_all_simps)
next
  case (Cons p ps)
  obtain cont w1 where c: "perform_search_in_pag_num site w p = (cont, w1)"
    by (cases "perform_search_in_pag_num site w p") auto
  from page_distinct[OF Cons.prems c] have "distinct (map fst (db w1))" .
  from Cons.IH[OF this] show ?case
    using c by (simp add: visit_all_simps)
qed

lemma search_pages_visit_all: "\<exists>k. search_pages site w ps = visit_all site w (take k ps)"
  using search_pages_spec[of ps site w] by blast

lemma take_upto_1: "k \<le> nat N \<Longrightarrow> take k [1..N] = [1..int k]"
  by (rule nth_equalityI) auto

lemma page_grows:
  assumes "1 \<le> j"
  shows "fst (perform_search_in_pag_num site (visit_all site w [1..j - 1]) j) = grows site w j"
proof -
  obtain cont w1 where c: "perform_search_in_pag_num site (visit_all site w [1..j - 1]) j = (cont, w1)"
    by (cases "perform_search_in_pag_num site (visit_all site w [1..j - 1]) j") auto
  have "[1..j] = [1..j - 1] @ [j]"
    using assms by (simp add: upto_rec2)
  then have "visit_all site w [1..j] = w1"
    using c by (simp add: visit_all_simps)
  moreover from page_spec[OF c] obtain new where
    "db w1 = db (visit_all site w [1..j - 1]) @ new" "cont \<longleftrightarrow> new \<noteq> []"
    by blast
  ultimately show ?thesis
    using c by (auto simp: grows_def)
qed

lemma page_idle:
  assumes "\<And>u. u \<in> set (map clean_car_url (pg_links (site (page_url p)))) \<Longrightarrow> present (db w) u"
  shows "perform_search_in_pag_num site w p = (False, w\<lparr>loads := loads w @ [page_url p]\<rparr>)"
proof -
  obtain cont w1 where c: "perform_search_in_pag_num site w p = (cont, w1)"
    by (cases "perform_search_in_pag_num site w p") auto
  have "fresh (db w) (map clean_car_url (pg_links (site (page_url p)))) = []"
    by (rule fresh_all_present) (rule assms)
  with page_spec[OF c] have "db w1 = db w" "\<not> cont" "loads w1 = loads w @ [page_url p]"
    by auto
  then have "w1 = w\<lparr>loads := loads w @ [page_url p]\<rparr>"
    by (cases w; cases w1) simp
  with c \<open>\<not> cont\<close> show ?thesis
    by simp
qed


lemma page_present:
  assumes "perform_search_in_pag_num site w p = (cont, w')"
    "u \<in> set (map clean_car_url (pg_links (site (page_url p))))"
  shows "present (db w') u"
proof -
  from page_spec[OF assms(1)] obtain new where
    new: "db w' = db w @ new"
      "map snd new = map pending_doc (fresh (db w) (map clean_car_url (pg_links (site (page_url p)))))"
    by blast
  show ?thesis
    unfolding new(1) present_append present_new[OF new(2)] set_fresh
    using assms(2) by blast
qed

lemma page_twice:
  "perform_search_in_pag_num site (snd (perform_search_in_pag_num site w p)) p =
     (False, (snd (perform_search_in_pag_num site w p))
        \<lparr>loads := loads (snd (perform_search_in_pag_num site w p)) @ [page_url p]\<rparr>)"
proof (rule page_idle)
  fix u
  assume "u \<in> set (map clean_car_url (pg_links (site (page_url p))))"
  then show "present (db (snd (perform_search_in_pag_num site w p))) u"
    by (intro page_present[of site w p "fst (perform_search_in_pag_num site w p)"]) simp_all
qed

lemma search_pages_twice:
  assumes "db w2 = db (search_pages site w ps)"
  shows "db (search_pages site w2 ps) = db w2"
proof (cases ps)
  case Nil
  then show ?thesis by simp
next
  case (Cons p rest)
  obtain cont w1 where c: "perform_search_in_pag_num site w p = (cont, w1)"
    by (cases "perform_search_in_pag_num site w p") auto
  obtain k where "search_pages site w ps = visit_all site w (take k ps)" "ps \<noteq> [] \<longrightarrow> 0 < k"
    using search_pages_spec[of ps site w] by blast
  then obtain k' where "search_pages site w ps = visit_all site w1 (take k' rest)"
    using Cons c by (cases k) (auto simp: visit_all_simps)
  with visit_all_db[of site w1 "take k' rest"] obtain new where
    new: "db (search_pages site w ps) = db w1 @ new"
    by auto
  have "present (db w2) u" if "u \<in> set (map clean_car_url (pg_links (site (page_url p))))" for u
    unfolding assms new present_append using page_present[OF c that] by simp
  then have "perform_search_in_pag_num site w2 p = (False, w2\<lparr>loads := loads w2 @ [page_url p]\<rparr>)"
    by (rule page_idle)
  then show ?thesis
    using Cons by simp
qed

section \<open>The details stage\<close>

lemmas K_defs = K_URL_def K_needs_details_def K_title_def K_subtitle_def K_price_def
  K_price_fairness_def K_Kilometraje_def K_Potencia_def K_Potencia_Kw_def K_Potentia_detalle_def
  K_Tiempo_de_carga_def K_Tiempo_de_carga_mins_def K_Autonomia_WLTP_def K_Autonomia_WLTP_Km_def
  K_Propietarios_def ascii_def

lemma stored_Kilometraje:
  "parse_info_pairs rt raw K_Kilometraje =
     map_option (\<lambda>val. opt_int (parse_km rt val)) (truthy (raw K_Kilometraje))"
  by (simp add: parse_info_pairs_def Let_def K_defs split: option.splits)

lemma stored_Potencia_Kw:
  "parse_info_pairs rt raw K_Potencia_Kw =
     map_option (\<lambda>val. opt_int (parse_kw rt val)) (truthy (raw K_Potencia))"
  by (simp add: parse_info_pairs_def Let_def K_defs split: option.splits)

lemma stored_Potentia_detalle:
  "parse_info_pairs rt raw K_Potentia_detalle = map_option VStr (truthy (raw K_Potencia))"
  by (simp add: parse_info_pairs_def Let_def K_defs split: option.splits)

lemma stored_Tiempo_de_carga:
  "parse_info_pairs rt raw K_Tiempo_de_carga_mins =
     map_option (\<lambda>val. opt_int (parse_minutes rt val)) (truthy (raw K_Tiempo_de_carga))"
  by (simp add: parse_info_pairs_def Let_def K_defs split: option.splits)

lemma stored_Autonomia:
  "parse_info_pairs rt raw K_Autonomia_WLTP_Km =
     map_option (\<lambda>val. opt_int (parse_km rt val)) (truthy (raw K_Autonomia_WLTP))"
  by (simp add: parse_info_pairs_def Let_def K_defs split: option.splits)

lemma stored_Propietarios:
  "parse_info_pairs rt raw K_Propietarios =
     map_option (\<lambda>val. opt_int (parse_int rt val)) (truthy (raw K_Propietarios))"
  by (simp add: parse_info_pairs_def Let_def K_defs split: option.splits)

lemma stored_other:
  "parse_info_pairs rt raw K_subtitle = None"
  "parse_info_pairs rt raw K_needs_details = None"
  by (simp_all add: parse_info_pairs_def Let_def K_defs split: option.splits)


lemma car_details_Inr:
  assumes "car_details rt pg = Inr cd"
  shows "\<exists>t p f raw. pg_title pg = Some t \<and> pg_price pg = Some p \<and> pg_fairness pg = Some f \<and>
           read_info_pairs (pg_features pg) Map.empty = Inr raw \<and>
           cd = ([K_title \<mapsto> VStr t,
                  K_subtitle \<mapsto> VStr (case pg_subtitle pg of None \<Rightarrow> [] | Some s \<Rightarrow> s),
                  K_price \<mapsto> opt_int (parse_price_eur rt p),
                  K_price_fairness \<mapsto> VStr f] ++ parse_info_pairs rt raw)
                (K_needs_details \<mapsto> VBool False)"
  using assms by (auto simp: car_details_def Let_def split: option.splits sum.splits)

lemma car_details_missing:
  "pg_title pg = None \<or> pg_price pg = None \<or> pg_fairness pg = None \<Longrightarrow>
   car_details rt pg = Inl AttributeError"
  by (auto simp: car_details_def Let_def split: option.splits sum.splits)

lemma car_details_needs:
  "car_details rt pg = Inr cd \<Longrightarrow> cd K_needs_details = Some (VBool False)"
  by (drule car_details_Inr) auto

lemma car_details_subtitle:
  assumes "car_details rt pg = Inr cd"
  shows "cd K_subtitle = Some (VStr (case pg_subtitle pg of None \<Rightarrow> [] | Some s \<Rightarrow> s))"
proof -
  have n: "K_subtitle \<noteq> K_needs_details" "K_subtitle \<noteq> K_price" "K_subtitle \<noteq> K_price_fairness"
    by (simp_all add: K_defs)
  from car_details_Inr[OF assms] show ?thesis
    using n by (auto simp: map_add_def stored_other)
qed

lemma car_details_attribute:
  assumes "car_details rt pg = Inr cd" "read_info_pairs (pg_features pg) Map.empty = Inr raw"
    "parse_info_pairs rt raw k = Some v" "k \<noteq> K_needs_details"
  shows "cd k = Some v"
  using car_details_Inr[OF assms(1)] assms(2-4) by (auto simp: map_add_def)

lemma read_info_pairs_panel:
  "read_info_pairs ts acc = Inr raw \<Longrightarrow>
   raw l = (case panel_value ts l of None \<Rightarrow> acc l | Some v \<Rightarrow> Some v)"
proof (induction ts arbitrary: acc)
  case Nil
  then show ?case
    by simp
next
  case (Cons t ts)
  from Cons.prems obtain k v rest where kv: "map py_strip (py_split 10 t) = k # v # rest"
    and run: "read_info_pairs ts (acc(k \<mapsto> v)) = Inr raw"
    by (auto split: list.splits)
  from Cons.IH[OF run] show ?case
    by (auto simp: entry_label_def entry_value_def kv split: option.splits)
qed

lemma car_details_field:
  assumes "car_details rt pg = Inr cd"
    "k \<notin> {K_needs_details, K_title, K_subtitle, K_price, K_price_fairness}"
  shows "\<exists>raw. read_info_pairs (pg_features pg) Map.empty = Inr raw \<and>
           cd k = parse_info_pairs rt raw k"
  using car_details_Inr[OF assms(1)] assms(2) by (auto simp: map_add_def split: option.splits)

lemma field_after_written:
  assumes "cd k = map_option (\<lambda>val. opt_int (normalizer val)) (truthy value)"
  shows "(d ++ cd) k = field_after normalizer value (d k)"
  using assms by (auto simp: map_add_def field_after_def truthy_def opt_int_def split: option.splits)

lemma lookup_update:
  "lookup_doc (tdb_update f [i] st) j =
     (if j = i then map_option (\<lambda>d. d ++ f) (lookup_doc st j) else lookup_doc st j)"
  by (induction st) (auto simp: lookup_doc_def tdb_update_def)

lemma fst_update: "map fst (tdb_update f ids st) = map fst st"
  by (induction st) (auto simp: tdb_update_def)

lemma fetch_loop_effect:
  assumes "distinct (map fst items)" "fetch_loop rt site w items = (w', err)"
  shows "map fst (db w') = map fst (db w) \<and>
         (\<forall>i. i \<notin> fst ` set items \<longrightarrow> lookup_doc (db w') i = lookup_doc (db w) i) \<and>
         (\<forall>i e. (i, e) \<in> set items \<longrightarrow>
            lookup_doc (db w') i = lookup_doc (db w) i \<or> written rt site w w' i e) \<and>
         (err = None \<longrightarrow> (\<forall>i e. (i, e) \<in> set items \<longrightarrow> written rt site w w' i e))"
  using assms
proof (induction items arbitrary: w)
  case Nil
  then show ?case by simp
next
  case (Cons item rest)
  obtain i0 e0 where item: "item = (i0, e0)"
    by (cases item) auto
  from Cons.prems(1) item have d: "distinct (map fst rest)" "i0 \<notin> fst ` set rest"
    by auto
  have stop: ?case if "w' = w\<lparr>loads := l\<rparr>" "err \<noteq> None" for l
    using that by auto
  show ?case
  proof (cases "e0 K_URL")
    case None
    with Cons.prems(2) item have "w' = w" "err \<noteq> None"
      by auto
    then show ?thesis
      by auto
  next
    case (Some v)
    show ?thesis
    proof (cases v)
      case (VStr u)
      let ?w1 = "w\<lparr>loads := loads w @ [u]\<rparr>"
      show ?thesis
      proof (cases "car_details rt (site u)")
        case (Inl x)
        with Cons.prems(2) item Some VStr have "w' = ?w1" "err \<noteq> None"
          by (auto simp: Let_def)
        then show ?thesis
          by (rule stop)
      next
        case (Inr cd)
        let ?w2 = "?w1\<lparr>db := tdb_update cd [i0] (db ?w1)\<rparr>"
        from Cons.prems(2) item Some VStr Inr have run: "fetch_loop rt site ?w2 rest = (w', err)"
          by (simp add: Let_def)
        from Cons.IH[OF d(1) run] have ih:
          "map fst (db w') = map fst (db ?w2)"
          "\<And>i. i \<notin> fst ` set rest \<Longrightarrow> lookup_doc (db w') i = lookup_doc (db ?w2) i"
          "\<And>i e. (i, e) \<in> set rest \<Longrightarrow>
              lookup_doc (db w') i = lookup_doc (db ?w2) i \<or> written rt site ?w2 w' i e"
          "\<And>i e. err = None \<Longrightarrow> (i, e) \<in> set rest \<Longrightarrow> written rt site ?w2 w' i e"
          by blast+
        have l2: "lookup_doc (db ?w2) i =
            (if i = i0 then map_option (\<lambda>d. d ++ cd) (lookup_doc (db w) i) else lookup_doc (db w) i)" for i
          by (simp add: lookup_update)
        have w0: "written rt site w w' i0 e0"
          unfolding written_def using Some VStr Inr ih(2)[OF d(2)] l2[of i0] by auto
        have wr: "written rt site w w' i e" if "written rt site ?w2 w' i e" "i \<noteq> i0" for i e
          using that l2[of i] by (simp add: written_def)
        have ne: "i \<noteq> i0" if "(i, e) \<in> set rest" for i e
          using that d(2) by force
        have 1: "map fst (db w') = map fst (db w)"
          using ih(1) by (simp add: fst_update)
        have 2: "lookup_doc (db w') i = lookup_doc (db w) i" if "i \<notin> fst ` set (item # rest)" for i
          using that ih(2)[of i] l2[of i] item by auto
        have 3: "lookup_doc (db w') i = lookup_doc (db w) i \<or> written rt site w w' i e"
          if "(i, e) \<in> set (item # rest)" for i e
        proof (cases "(i, e) = (i0, e0)")
          case True
          with w0 show ?thesis by simp
        next
          case False
          with that item have r: "(i, e) \<in> set rest"
            by auto
          from ih(3)[OF r] show ?thesis
            using l2[of i] ne[OF r] wr[of i e] by auto
        qed
        have 4: "written rt site w w' i e" if "err = None" "(i, e) \<in> set (item # rest)" for i e
        proof (cases "(i, e) = (i0, e0)")
          case True
          with w0 show ?thesis by simp
        next
          case False
          with that item have r: "(i, e) \<in> set rest"
            by auto
          from ih(4)[OF that(1) r] show ?thesis
            using ne[OF r] wr by blast
        qed
        show ?thesis
          using 1 2 3 4 by blast
      qed
    next
      case VNone
      with Cons.prems(2) item Some have "w' = w" "err \<noteq> None"
        by auto
      then show ?thesis by auto
    next
      case (VBool x)
      with Cons.prems(2) item Some have "w' = w" "err \<noteq> None"
        by auto
      then show ?thesis by auto
    next
      case (VInt x)
      with Cons.prems(2) item Some have "w' = w" "err \<noteq> None"
        by auto
      then show ?thesis by auto
    qed
  qed
qed

lemma fetch_details_effect:
  assumes "distinct (map fst (db w))" "fetch_details rt site w = (w', err)"
  shows "map fst (db w') = map fst (db w)"
    and "lookup_doc (db w') i = lookup_doc (db w) i \<or>
         (\<exists>d. lookup_doc (db w) i = Some d \<and> pending d \<and> written rt site w w' i d)"
    and "err = None \<Longrightarrow> lookup_doc (db w) i = Some d \<Longrightarrow> pending d \<Longrightarrow> written rt site w w' i d"
proof -
  let ?items = "tdb_search (query_eq K_needs_details (VBool True)) (db w)"
  have dist: "distinct (map fst ?items)"
    using assms(1) by (simp add: tdb_search_def distinct_map_filter)
  have mem: "(i, e) \<in> set ?items \<longleftrightarrow> lookup_doc (db w) i = Some e \<and> pending e" for i e
    using assms(1) by (auto simp: tdb_search_def lookup_doc_def pending_def)
  from assms(2) have run: "fetch_loop rt site w ?items = (w', err)"
    by (simp add: fetch_details_def)
  note eff = fetch_loop_effect[OF dist run]
  show "map fst (db w') = map fst (db w)"
    using eff by blast
  show "lookup_doc (db w') i = lookup_doc (db w) i \<or>
         (\<exists>d. lookup_doc (db w) i = Some d \<and> pending d \<and> written rt site w w' i d)"
  proof (cases "i \<in> fst ` set ?items")
    case False
    with eff show ?thesis by blast
  next
    case True
    then obtain e where e: "(i, e) \<in> set ?items"
      by force
    with eff have "lookup_doc (db w') i = lookup_doc (db w) i \<or> written rt site w w' i e"
      by blast
    with e mem show ?thesis
      by blast
  qed
  show "written rt site w w' i d" if "err = None" "lookup_doc (db w) i = Some d" "pending d"
    using that eff mem by blast
qed


lemma written_changes:
  assumes "written rt site w w' i d" "lookup_doc (db w) i = Some d" "pending d"
  shows "lookup_doc (db w') i \<noteq> lookup_doc (db w) i"
proof -
  from assms(1,2) obtain u cd where cd: "car_details rt (site u) = Inr cd"
    "lookup_doc (db w') i = Some (d ++ cd)"
    by (auto simp: written_def)
  from cd(1) have f: "(d ++ cd) K_needs_details = Some (VBool False)"
    by (auto simp: map_add_def dest: car_details_needs)
  have t: "d K_needs_details \<noteq> Some (VBool False)"
    using assms(3) by (auto simp: pending_def query_eq_def)
  have "d ++ cd \<noteq> d"
  proof
    assume "d ++ cd = d"
    then have "(d ++ cd) K_needs_details = d K_needs_details"
      by simp
    with f t show False
      by simp
  qed
  with cd(2) assms(2) show ?thesis
    by simp
qed

lemma not_pending_if_false: "query_eq K_needs_details (VBool False) d \<Longrightarrow> \<not> pending d"
proof -
  have "\<not> (py_eq v (VBool False) \<and> py_eq v (VBool True))" for v
    by (cases v) auto
  then show "query_eq K_needs_details (VBool False) d \<Longrightarrow> \<not> pending d"
    by (auto simp: pending_def query_eq_def split: option.splits)
qed

lemma lookup_append:
  "lookup_doc (st @ new) i = (case lookup_doc st i of None \<Rightarrow> lookup_doc new i | Some d \<Rightarrow> Some d)"
  unfolding lookup_doc_def by (simp add: map_add_def)

lemma lookup_new_pending:
  assumes "set (map snd new) \<subseteq> range pending_doc" "lookup_doc new i = Some d"
  shows "d K_needs_details = Some (VBool True)"
proof -
  from assms(2) have "(i, d) \<in> set new"
    by (simp add: lookup_doc_def map_of_SomeD)
  then have "d \<in> set (map snd new)"
    by force
  with assms(1) obtain u where "d = pending_doc u"
    by blast
  then show ?thesis
    by (simp add: pending_doc_needs)
qed

lemma perform_search_effect:
  "\<exists>new. db (fst (perform_search rt site w)) = db w @ new \<and> set (map snd new) \<subseteq> range pending_doc"
  "distinct (map fst (db w)) \<Longrightarrow> distinct (map fst (db (fst (perform_search rt site w))))"
proof -
  let ?w1 = "w\<lparr>loads := loads w @ [URL_SEARCH]\<rparr>"
  have "fst (perform_search rt site w) = ?w1 \<or>
        (\<exists>ps. fst (perform_search rt site w) = visit_all site ?w1 ps)"
    using search_pages_visit_all[of site ?w1]
    by (auto simp: perform_search_def Let_def split: option.splits sum.splits)
  then obtain ps where ps: "fst (perform_search rt site w) = visit_all site ?w1 ps"
  proof
    assume "fst (perform_search rt site w) = ?w1"
    then have "fst (perform_search rt site w) = visit_all site ?w1 []"
      by (simp add: visit_all_simps)
    then show ?thesis
      by (rule that)
  next
    assume "\<exists>ps. fst (perform_search rt site w) = visit_all site ?w1 ps"
    then show ?thesis
      using that by blast
  qed
  show "\<exists>new. db (fst (perform_search rt site w)) = db w @ new \<and> set (map snd new) \<subseteq> range pending_doc"
    unfolding ps using visit_all_db[of site ?w1 ps] by simp
  show "distinct (map fst (db (fst (perform_search rt site w))))" if "distinct (map fst (db w))"
    unfolding ps using that visit_all_distinct[of ?w1 site ps] by simp
qed

lemma discover_page_effect:
  "\<exists>new. db (snd (perform_search_in_pag_num site w p)) = db w @ new \<and>
         set (map snd new) \<subseteq> range pending_doc"
  "distinct (map fst (db w)) \<Longrightarrow> distinct (map fst (db (snd (perform_search_in_pag_num site w p))))"
  using visit_all_db[of site w "[p]"] visit_all_distinct[of w site "[p]"]
  by (simp_all add: visit_all_simps)

lemma run_op_distinct: "distinct (map fst (db w)) \<Longrightarrow> distinct (map fst (db (run_op rt w op)))"
proof (cases op)
  case (Discover site)
  then show "distinct (map fst (db w)) \<Longrightarrow> ?thesis"
    by (simp add: perform_search_effect(2))
next
  case (DiscoverPage site p)
  then show "distinct (map fst (db w)) \<Longrightarrow> ?thesis"
    by (simp add: discover_page_effect(2))
next
  case (Details site)
  assume d: "distinct (map fst (db w))"
  have "map fst (db (fst (fetch_details rt site w))) = map fst (db w)"
    by (rule fetch_details_effect(1)[OF d, of rt site _ "snd (fetch_details rt site w)"]) simp
  with d Details show ?thesis
    by simp
qed

lemma run_op_effect:
  assumes "distinct (map fst (db w))"
  shows "(lookup_doc (db w) i = None \<longrightarrow>
            (case lookup_doc (db (run_op rt w op)) i of None \<Rightarrow> True
             | Some d' \<Rightarrow> d' K_needs_details = Some (VBool True))) \<and>
         (\<forall>d. lookup_doc (db w) i = Some d \<and> lookup_doc (db (run_op rt w op)) i \<noteq> Some d \<longrightarrow>
            pending d \<and> (\<exists>d'. lookup_doc (db (run_op rt w op)) i = Some d' \<and>
                              d' K_needs_details = Some (VBool False)))"
proof -
  have grow: ?thesis if "db (run_op rt w op) = db w @ new" "set (map snd new) \<subseteq> range pending_doc"
    for new
    unfolding that(1) lookup_append using lookup_new_pending[OF that(2)]
    by (auto split: option.splits)
  show ?thesis
  proof (cases op)
    case (Discover site)
    with perform_search_effect(1)[of rt site w] grow show ?thesis
      by auto
  next
    case (DiscoverPage site p)
    with discover_page_effect(1)[of site w p] grow show ?thesis
      by auto
  next
    case (Details site)
    let ?w' = "fst (fetch_details rt site w)"
    have r: "fetch_details rt site w = (?w', snd (fetch_details rt site w))"
      by simp
    note eff = fetch_details_effect(2)[OF assms r, of i]
    have 1: "lookup_doc (db ?w') i = None" if "lookup_doc (db w) i = None"
      using eff that by auto
    have 2: "pending d \<and> (\<exists>d'. lookup_doc (db ?w') i = Some d' \<and> d' K_needs_details = Some (VBool False))"
      if "lookup_doc (db w) i = Some d" "lookup_doc (db ?w') i \<noteq> Some d" for d
    proof -
      from eff that have p: "pending d" and wr: "written rt site w ?w' i d"
        by auto
      from wr that(1) obtain cd u where "car_details rt (site u) = Inr cd"
        "lookup_doc (db ?w') i = Some (d ++ cd)"
        by (auto simp: written_def)
      then have "(d ++ cd) K_needs_details = Some (VBool False)" "lookup_doc (db ?w') i = Some (d ++ cd)"
        by (auto simp: map_add_def dest: car_details_needs)
      with p show ?thesis
        by (intro conjI exI[of _ "d ++ cd"]) simp_all
    qed
    show ?thesis
      using Details 1 2 by simp
  qed
qed

lemma run_ops_keeps_completed:
  assumes "distinct (map fst (db w))" "lookup_doc (db w) i = Some d"
    "query_eq K_needs_details (VBool False) d"
  shows "lookup_doc (db (run_ops rt w ops)) i = Some d"
  using assms(1,2) unfolding run_ops_def
proof (induction ops arbitrary: w)
  case Nil
  then show ?case by simp
next
  case (Cons op ops)
  have "lookup_doc (db w) i = Some d \<and> lookup_doc (db (run_op rt w op)) i \<noteq> Some d \<longrightarrow> pending d"
    using run_op_effect[OF Cons.prems(1), of i rt op] by simp
  then have "lookup_doc (db (run_op rt w op)) i = Some d"
    using Cons.prems(2) not_pending_if_false[OF assms(3)] by auto
  moreover have "distinct (map fst (db (run_op rt w op)))"
    using Cons.prems(1) by (rule run_op_distinct)
  ultimately show ?case
    using Cons.IH by simp
qed


lemma demo_pending:
  "distinct (map fst (db one_pending))"
  "lookup_doc (db one_pending) 1 = Some (pending_doc car_url_1)"
  "pending (pending_doc car_url_1)"
  "pending_doc car_url_1 K_URL = Some (VStr car_url_1)"
  by (simp_all add: one_pending_def lookup_doc_def pending_def query_eq_def pending_doc_needs
      pending_doc_URL)

lemma example_features:
  "pg_features (owners_site u) =
     [ascii ''Kilometraje'' @ [10] @ ascii ''8.000 km'',
      ascii ''Propietarios anteriores'' @ [10] @ ascii ''01'']"
  "pg_features (repeated_site u) =
     [ascii ''Kilometraje'' @ [10] @ ascii ''abc'',
      ascii ''Kilometraje'' @ [10] @ ascii ''8.000 km'',
      ascii ''Potencia'' @ [10] @ ascii ''150 kW'',
      ascii ''Potencia'' @ [10] @ ascii ''150 CV'',
      ascii ''Autonom'' @ [237] @ ascii ''a (WLTP)'' @ [10]]"
  by (simp_all add: owners_site_def repeated_site_def detail_page_def)

section \<open>Claims about the normalizers\<close>

text \<open>
  C5 (as amended).  For each of the four grouped-integer normalizers (currency
  amount, distance, power, duration): when the numeric token is a leading group of
  one to three digits and then groups of exactly three digits, each after a \<^verbatim>\<open>.\<close>,
  and the rest of the text is what the pattern of the normalizer wants after the
  token, the result is the integer that the digits of the groups spell if the token
  is within the limit of the interpreter for \<^verbatim>\<open>int()\<close> (it has no more digits than the
  limit, or the limit is 0, which means none), and the result is invalid if the
  token has more digits than the limit.  When the token, a non-empty run of digits
  and separators that ends the text or is followed by another character, is grouped
  in any other way, the result is invalid, whatever follows.
\<close>

theorem grouped_integer_normalizers:
  assumes "decimal_ok rt"
  shows
  "(grouped rt g0 gs \<and> list_all py_isspace a \<longrightarrow>
      (matches rt False price_post b1 \<longrightarrow>
         parse_price_eur rt (a @ token g0 gs @ b1) =
           (if within_limit rt (g0 @ concat gs) then Some (int (digits_val rt (g0 @ concat gs)))
            else None)) \<and>
      (matches rt True km_post b2 \<longrightarrow>
         parse_km rt (a @ token g0 gs @ b2) =
           (if within_limit rt (g0 @ concat gs) then Some (int (digits_val rt (g0 @ concat gs)))
            else None)) \<and>
      (matches rt True kw_post b3 \<longrightarrow>
         parse_kw rt (a @ token g0 gs @ b3) =
           (if within_limit rt (g0 @ concat gs) then Some (int (digits_val rt (g0 @ concat gs)))
            else None)) \<and>
      (matches rt True min_post b4 \<longrightarrow>
         parse_minutes rt (a @ token g0 gs @ b4) =
           (if within_limit rt (g0 @ concat gs) then Some (int (digits_val rt (g0 @ concat gs)))
            else None))) \<and>
   (t \<noteq> [] \<and> list_all (tok_char rt) t \<and> \<not> well_grouped rt t \<and> list_all py_isspace a \<and>
    (b = [] \<or> \<not> tok_char rt (hd b)) \<longrightarrow>
      parse_price_eur rt (a @ t @ b) = None \<and> parse_km rt (a @ t @ b) = None \<and>
      parse_kw rt (a @ t @ b) = None \<and> parse_minutes rt (a @ t @ b) = None)"
proof (intro conjI impI)
  assume h: "grouped rt g0 gs \<and> list_all py_isspace a"
  then have g: "list_all py_isspace a" "grouped rt g0 gs"
    by blast+
  have l: "(int_max_str_digits rt \<noteq> 0 \<and> int_max_str_digits rt < length (g0 @ concat gs)) =
      (\<not> within_limit rt (g0 @ concat gs))"
    unfolding within_limit_def by auto
  {
    assume "matches rt False price_post b1"
    then show "parse_price_eur rt (a @ token g0 gs @ b1) =
        (if within_limit rt (g0 @ concat gs) then Some (int (digits_val rt (g0 @ concat gs)))
         else None)"
      using parse_price_eur_token[OF assms g] l by simp
  }
  {
    assume "matches rt True km_post b2"
    then show "parse_km rt (a @ token g0 gs @ b2) =
        (if within_limit rt (g0 @ concat gs) then Some (int (digits_val rt (g0 @ concat gs)))
         else None)"
      using parse_km_token[OF assms g] l by simp
  }
  {
    assume "matches rt True kw_post b3"
    then show "parse_kw rt (a @ token g0 gs @ b3) =
        (if within_limit rt (g0 @ concat gs) then Some (int (digits_val rt (g0 @ concat gs)))
         else None)"
      using parse_kw_token[OF assms g] l by simp
  }
  {
    assume "matches rt True min_post b4"
    then show "parse_minutes rt (a @ token g0 gs @ b4) =
        (if within_limit rt (g0 @ concat gs) then Some (int (digits_val rt (g0 @ concat gs)))
         else None)"
      using parse_minutes_token[OF assms g] l by simp
  }
next
  assume h: "t \<noteq> [] \<and> list_all (tok_char rt) t \<and> \<not> well_grouped rt t \<and> list_all py_isspace a \<and>
    (b = [] \<or> \<not> tok_char rt (hd b))"
  then have h': "t \<noteq> []" "list_all (tok_char rt) t" "\<not> well_grouped rt t" "list_all py_isspace a"
    "b = [] \<or> \<not> tok_char rt (hd b)"
    by blast+
  show "parse_price_eur rt (a @ t @ b) = None"
    by (rule parsers_reject(1)[OF assms h'])
  show "parse_km rt (a @ t @ b) = None"
    by (rule parsers_reject(2)[OF assms h'])
  show "parse_kw rt (a @ t @ b) = None"
    by (rule parsers_reject(3)[OF assms h'])
  show "parse_minutes rt (a @ t @ b) = None"
    by (rule parsers_reject(4)[OF assms h'])
qed

text \<open>
  With the table of the ASCII digits and the limit of 4300 digits: the token
  \<^verbatim>\<open>49.547\<close> after a space, before each of the four units; a token of 4303 digits,
  grouped as wanted, before each of the four units; and the tokens
  \<^verbatim>\<open>49.547.50\<close> and \<^verbatim>\<open>49.54\<close>.
\<close>

theorem grouped_integer_normalizers_witness:
  "decimal_ok (ascii_runtime 4300) \<and>
   parse_price_eur (ascii_runtime 4300) (ascii '' 49.547'' @ [160, 8364]) = Some 49547 \<and>
   parse_km (ascii_runtime 4300) (ascii '' 49.547 km'') = Some 49547 \<and>
   parse_kw (ascii_runtime 4300) (ascii '' 49.547 kW (476 cv)'') = Some 49547 \<and>
   parse_minutes (ascii_runtime 4300) (ascii '' 49.547 Min.'') = Some 49547 \<and>
   parse_price_eur (ascii_runtime 4300)
     (token (ascii ''1'') (replicate 1434 (ascii ''111'')) @ [160, 8364]) = None \<and>
   parse_km (ascii_runtime 4300)
     (token (ascii ''1'') (replicate 1434 (ascii ''111'')) @ ascii '' km'') = None \<and>
   parse_kw (ascii_runtime 4300)
     (token (ascii ''1'') (replicate 1434 (ascii ''111'')) @ ascii '' kW (476 cv)'') = None \<and>
   parse_minutes (ascii_runtime 4300)
     (token (ascii ''1'') (replicate 1434 (ascii ''111'')) @ ascii '' Min.'') = None \<and>
   parse_price_eur (ascii_runtime 4300) (ascii '' 49.547.50 '' @ [8364]) = None \<and>
   parse_km (ascii_runtime 4300) (ascii '' 49.547.50 '' @ [8364]) = None \<and>
   parse_kw (ascii_runtime 4300) (ascii '' 49.547.50 '' @ [8364]) = None \<and>
   parse_minutes (ascii_runtime 4300) (ascii '' 49.547.50 '' @ [8364]) = None \<and>
   parse_price_eur (ascii_runtime 4300) (ascii ''49.54 '' @ [8364]) = None \<and>
   parse_km (ascii_runtime 4300) (ascii ''49.54 km'') = None"
proof -
  let ?rt = "ascii_runtime 4300"
  let ?big = "replicate 1434 (ascii ''111'')"
  have ok: "decimal_ok ?rt"
    by (rule decimal_ok_ascii)
  have g: "grouped ?rt (ascii ''49'') [ascii ''547'']"
    by code_simp
  have a: "list_all py_isspace (ascii '' '')"
    by code_simp
  have l: "within_limit ?rt (ascii ''49'' @ concat [ascii ''547''])"
    by (simp add: within_limit_def ascii_def ascii_runtime_def)
  have p1: "matches ?rt False price_post [160, 8364]"
    by code_simp
  have p2: "matches ?rt True km_post (ascii '' km'')"
    by code_simp
  have p3: "matches ?rt True kw_post (ascii '' kW (476 cv)'')"
    by code_simp
  have p4: "matches ?rt True min_post (ascii '' Min.'')"
    by code_simp
  have t1: "ascii ''49.547.50'' \<noteq> []"
    by (simp add: ascii_def)
  have t2: "list_all (tok_char ?rt) (ascii ''49.547.50'')"
    by code_simp
  have t3: "\<not> well_grouped ?rt (ascii ''49.547.50'')"
    by code_simp
  have b: "[32, 8364] = [] \<or> \<not> tok_char ?rt (hd [32, 8364])"
    by (simp add: tok_char_def py_isdigit_def ascii_runtime_def)
  note T = grouped_integer_normalizers[OF ok, of "ascii ''49''" "[ascii ''547'']" "ascii '' ''"
      "[160, 8364]" "ascii '' km''" "ascii '' kW (476 cv)''" "ascii '' Min.''"
      "ascii ''49.547.50''" "[32, 8364]"]
  from T g a l p1 have r1:
    "parse_price_eur ?rt (ascii '' '' @ token (ascii ''49'') [ascii ''547''] @ [160, 8364]) =
      Some (int (digits_val ?rt (ascii ''49'' @ concat [ascii ''547''])))"
    by simp
  from T g a l p2 have r2:
    "parse_km ?rt (ascii '' '' @ token (ascii ''49'') [ascii ''547''] @ ascii '' km'') =
      Some (int (digits_val ?rt (ascii ''49'' @ concat [ascii ''547''])))"
    by simp
  from T g a l p3 have r3:
    "parse_kw ?rt (ascii '' '' @ token (ascii ''49'') [ascii ''547''] @ ascii '' kW (476 cv)'') =
      Some (int (digits_val ?rt (ascii ''49'' @ concat [ascii ''547''])))"
    by simp
  from T g a l p4 have r4:
    "parse_minutes ?rt (ascii '' '' @ token (ascii ''49'') [ascii ''547''] @ ascii '' Min.'') =
      Some (int (digits_val ?rt (ascii ''49'' @ concat [ascii ''547''])))"
    by simp
  from T t1 t2 t3 a b have r5:
    "parse_price_eur ?rt (ascii '' '' @ ascii ''49.547.50'' @ [32, 8364]) = None"
    "parse_km ?rt (ascii '' '' @ ascii ''49.547.50'' @ [32, 8364]) = None"
    "parse_kw ?rt (ascii '' '' @ ascii ''49.547.50'' @ [32, 8364]) = None"
    "parse_minutes ?rt (ascii '' '' @ ascii ''49.547.50'' @ [32, 8364]) = None"
    by blast+
  have u: "ascii ''49.54'' \<noteq> []" "list_all (tok_char ?rt) (ascii ''49.54'')"
    "\<not> well_grouped ?rt (ascii ''49.54'')" "list_all py_isspace []"
    by code_simp+
  have c2: "ascii '' km'' = [] \<or> \<not> tok_char ?rt (hd (ascii '' km''))"
    by (simp add: tok_char_def py_isdigit_def ascii_def ascii_runtime_def)
  from grouped_integer_normalizers[OF ok, of _ _ "[]" _ _ _ _ "ascii ''49.54''" "[32, 8364]"] u b
  have r6: "parse_price_eur ?rt ([] @ ascii ''49.54'' @ [32, 8364]) = None"
    by blast
  from grouped_integer_normalizers[OF ok, of _ _ "[]" _ _ _ _ "ascii ''49.54''" "ascii '' km''"] u c2
  have r7: "parse_km ?rt ([] @ ascii ''49.54'' @ ascii '' km'') = None"
    by blast
  have gb: "grouped ?rt (ascii ''1'') ?big"
    by (simp add: grouped_def ascii_def py_isdigit_def ascii_runtime_def list_all_iff)
  have lb: "\<not> within_limit ?rt (ascii ''1'' @ concat ?big)"
    by (simp add: within_limit_def ascii_def ascii_runtime_def length_concat sum_list_replicate)
  note B = grouped_integer_normalizers[OF ok, of "ascii ''1''" ?big "[]"
      "[160, 8364]" "ascii '' km''" "ascii '' kW (476 cv)''" "ascii '' Min.''"]
  from B gb u(4) p1 have r8:
    "parse_price_eur ?rt ([] @ token (ascii ''1'') ?big @ [160, 8364]) =
      (if within_limit ?rt (ascii ''1'' @ concat ?big)
       then Some (int (digits_val ?rt (ascii ''1'' @ concat ?big))) else None)"
    by blast
  from B gb u(4) p2 have r9:
    "parse_km ?rt ([] @ token (ascii ''1'') ?big @ ascii '' km'') =
      (if within_limit ?rt (ascii ''1'' @ concat ?big)
       then Some (int (digits_val ?rt (ascii ''1'' @ concat ?big))) else None)"
    by blast
  from B gb u(4) p3 have r10:
    "parse_kw ?rt ([] @ token (ascii ''1'') ?big @ ascii '' kW (476 cv)'') =
      (if within_limit ?rt (ascii ''1'' @ concat ?big)
       then Some (int (digits_val ?rt (ascii ''1'' @ concat ?big))) else None)"
    by blast
  from B gb u(4) p4 have r11:
    "parse_minutes ?rt ([] @ token (ascii ''1'') ?big @ ascii '' Min.'') =
      (if within_limit ?rt (ascii ''1'' @ concat ?big)
       then Some (int (digits_val ?rt (ascii ''1'' @ concat ?big))) else None)"
    by blast
  have v: "digits_val ?rt (ascii ''49'' @ concat [ascii ''547'']) = 49547"
    by (simp add: digits_val_def digit_of_def ascii_def ascii_runtime_def)
  have s1: "parse_price_eur ?rt (ascii '' 49.547'' @ [160, 8364]) = Some 49547"
    "parse_km ?rt (ascii '' 49.547 km'') = Some 49547"
    "parse_kw ?rt (ascii '' 49.547 kW (476 cv)'') = Some 49547"
    "parse_minutes ?rt (ascii '' 49.547 Min.'') = Some 49547"
    using r1 r2 r3 r4 unfolding v by (simp_all add: token_def ascii_def)
  have s2: "parse_price_eur ?rt (ascii '' 49.547.50 '' @ [8364]) = None"
    "parse_km ?rt (ascii '' 49.547.50 '' @ [8364]) = None"
    "parse_kw ?rt (ascii '' 49.547.50 '' @ [8364]) = None"
    "parse_minutes ?rt (ascii '' 49.547.50 '' @ [8364]) = None"
    "parse_price_eur ?rt (ascii ''49.54 '' @ [8364]) = None"
    "parse_km ?rt (ascii ''49.54 km'') = None"
    using r5 r6 r7 by (simp_all add: ascii_def)
  have s3: "parse_price_eur ?rt (token (ascii ''1'') ?big @ [160, 8364]) = None"
    "parse_km ?rt (token (ascii ''1'') ?big @ ascii '' km'') = None"
    "parse_kw ?rt (token (ascii ''1'') ?big @ ascii '' kW (476 cv)'') = None"
    "parse_minutes ?rt (token (ascii ''1'') ?big @ ascii '' Min.'') = None"
    using r8 r9 r10 r11 lb by simp_all
  from ok s1 s2 s3 show ?thesis
    by blast
qed

text \<open>
  C5 as it is stated fails for a token that is grouped as wanted and has more digits
  than the limit: with the limit of 4300 digits, a token of 4303 digits is invalid.
\<close>

theorem grouped_integer_limit_counterexample:
  "grouped (ascii_runtime 4300) (ascii ''1'') (replicate 1434 (ascii ''111'')) \<and>
   parse_km (ascii_runtime 4300)
     (token (ascii ''1'') (replicate 1434 (ascii ''111'')) @ ascii '' km'') = None"
proof -
  let ?rt = "ascii_runtime 4300"
  have g: "grouped ?rt (ascii ''1'') (replicate 1434 (ascii ''111''))"
    by (simp add: grouped_def ascii_def py_isdigit_def ascii_runtime_def list_all_iff)
  have p: "matches ?rt True km_post (ascii '' km'')"
    by code_simp
  have "parse_km ?rt ([] @ token (ascii ''1'') (replicate 1434 (ascii ''111'')) @ ascii '' km'') = None"
    by (subst parse_km_token[OF decimal_ok_ascii _ g p])
      (simp_all add: ascii_def ascii_runtime_def length_concat sum_list_replicate)
  with g show ?thesis
    by simp
qed

text \<open>
  C6.  The power normalizer accepts text after the unit that is more than one
  parenthetical: the \<^verbatim>\<open>.\<close> of \<^verbatim>\<open>\(.*?\)\<close> also matches \<^verbatim>\<open>)\<close> and \<^verbatim>\<open>(\<close>, so the match
  runs from the first \<^verbatim>\<open>(\<close> to the last \<^verbatim>\<open>)\<close> of the text.  The text
  \<^verbatim>\<open>350 kW (476 cv) extra (x)\<close> gives 350, where the claim (and the docstring of the
  function: one optional parenthetical, no extra text) wants it invalid.  Text
  after the unit that does not end with \<^verbatim>\<open>)\<close> is refused.
\<close>

theorem power_kw_trailing_text:
  "parse_kw (ascii_runtime 4300) (ascii ''350 kW (476 cv) extra (x)'') = Some 350 \<and>
   parse_kw (ascii_runtime 4300) (ascii ''350 kW (476 cv)'') = Some 350 \<and>
   parse_kw (ascii_runtime 4300) (ascii ''350 kW extra'') = None"
proof -
  let ?rt = "ascii_runtime 4300"
  have g: "grouped ?rt (ascii ''350'') []"
    by code_simp
  have p1: "matches ?rt True kw_post (ascii '' kW (476 cv) extra (x)'')"
    by code_simp
  have p2: "matches ?rt True kw_post (ascii '' kW (476 cv)'')"
    by code_simp
  have "parse_kw ?rt ([] @ token (ascii ''350'') [] @ ascii '' kW (476 cv) extra (x)'') = Some 350"
    by (subst parse_kw_token[OF decimal_ok_ascii _ g p1]) (simp_all add: digits_val_def digit_of_def ascii_def ascii_runtime_def)
  moreover have "parse_kw ?rt ([] @ token (ascii ''350'') [] @ ascii '' kW (476 cv)'') = Some 350"
    by (subst parse_kw_token[OF decimal_ok_ascii _ g p2]) (simp_all add: digits_val_def digit_of_def ascii_def ascii_runtime_def)
  moreover have "parse_kw ?rt (ascii ''350 kW extra'') = None"
    by code_simp
  ultimately show ?thesis
    by (simp add: token_def ascii_def)
qed

section \<open>Claims about discovery\<close>

text \<open>
  C2 (as amended).  For every listing page, the discovery of the page appends one
  pending record for each identity of the page that is not yet in the store (once
  for an identity that the page lists several times, in the order of the first
  occurrences), keeps every record that the store had, with its id and its fields,
  and returns the truth value of "at least one record was inserted": \<^verbatim>\<open>True\<close> or
  \<^verbatim>\<open>False\<close>, not the number of the new records.
\<close>

theorem discover_page_inserts:
  "\<exists>new. db (snd (perform_search_in_pag_num site w pag_num)) = db w @ new \<and>
         map snd new = map pending_doc
           (fresh (db w) (map clean_car_url (pg_links (site (page_url pag_num))))) \<and>
         fst (perform_search_in_pag_num site w pag_num) = (new \<noteq> [])"
proof -
  obtain cont w' where c: "perform_search_in_pag_num site w pag_num = (cont, w')"
    by (cases "perform_search_in_pag_num site w pag_num") auto
  from page_spec[OF c] show ?thesis
    unfolding c by auto
qed

text \<open>
  The second page of the example listing, on an empty store: both identities are new,
  the links are cut at the first \<^verbatim>\<open>&\<close>, and the call returns \<^verbatim>\<open>True\<close>.
\<close>

theorem discover_page_inserts_witness:
  "map snd (db (snd (perform_search_in_pag_num scenario_site empty_world 2))) =
     map pending_doc [ascii ''/es/detalles.html?id=101'', ascii ''/es/detalles.html?id=103''] \<and>
   fst (perform_search_in_pag_num scenario_site empty_world 2) = True"
proof -
  have f: "fresh (db empty_world) (map clean_car_url (pg_links (scenario_site (page_url 2)))) =
      [ascii ''/es/detalles.html?id=101'', ascii ''/es/detalles.html?id=103'']"
    by code_simp
  from discover_page_inserts[of scenario_site empty_world 2] obtain new where
    "db (snd (perform_search_in_pag_num scenario_site empty_world 2)) = db empty_world @ new"
    "map snd new = map pending_doc
       (fresh (db empty_world) (map clean_car_url (pg_links (scenario_site (page_url 2)))))"
    "fst (perform_search_in_pag_num scenario_site empty_world 2) = (new \<noteq> [])"
    by blast
  then show ?thesis
    unfolding f by (auto simp: empty_world_def)
qed

text \<open>
  C2 as it is stated fails on the return value: the first page of the example
  listing inserts two records, and the value returned is \<^verbatim>\<open>True\<close>, which is not
  equal to 2.
\<close>

theorem discover_page_count_counterexample:
  "length (db (snd (perform_search_in_pag_num scenario_site empty_world 1))) = 2 \<and>
   \<not> py_eq (VBool (fst (perform_search_in_pag_num scenario_site empty_world 1))) (VInt 2)"
  by code_simp

text \<open>
  C4.  When the pagination item of the search page reads \<open>N\<close>, a discovery run loads
  the search page once, before anything else, and then the listing pages \<open>1, ..., k\<close>
  in this order, for some \<open>k\<close> up to \<open>N\<close> (and at least 1 when \<open>N\<close> is): every
  page before the \<open>k\<close>-th added a record to the store, and when \<open>k\<close> is less than \<open>N\<close>
  the \<open>k\<close>-th page added none.  So the run stops right after the first page without
  a new record and goes on to page \<open>N\<close> otherwise.  The state it returns is the one
  after these \<open>k\<close> pages.
\<close>

theorem perform_search_order:
  assumes "pg_pagination (site URL_SEARCH) = Some txt" "py_int rt txt = Inr N"
  shows "\<exists>k. 0 \<le> k \<and> k \<le> max 0 N \<and> (1 \<le> N \<longrightarrow> 1 \<le> k) \<and>
           perform_search rt site w =
             (visit_all site (w\<lparr>loads := loads w @ [URL_SEARCH]\<rparr>) [1..k], None) \<and>
           loads (fst (perform_search rt site w)) = loads w @ URL_SEARCH # map page_url [1..k] \<and>
           (\<forall>j. 1 \<le> j \<and> j < k \<longrightarrow> grows site (w\<lparr>loads := loads w @ [URL_SEARCH]\<rparr>) j) \<and>
           (k < N \<longrightarrow> \<not> grows site (w\<lparr>loads := loads w @ [URL_SEARCH]\<rparr>) k)"
proof -
  let ?w1 = "w\<lparr>loads := loads w @ [URL_SEARCH]\<rparr>"
  let ?ps = "[1..N]"
  have run: "perform_search rt site w = (search_pages site ?w1 ?ps, None)"
    using assms by (simp add: perform_search_def Let_def)
  from search_pages_spec[of ?ps site ?w1] obtain k where k: "k \<le> length ?ps" "?ps \<noteq> [] \<longrightarrow> 0 < k"
    "search_pages site ?w1 ?ps = visit_all site ?w1 (take k ?ps)"
    "\<forall>j. j + 1 < k \<longrightarrow>
        fst (perform_search_in_pag_num site (visit_all site ?w1 (take j ?ps)) (?ps ! j))"
    "k < length ?ps \<longrightarrow>
        \<not> fst (perform_search_in_pag_num site (visit_all site ?w1 (take (k - 1) ?ps)) (?ps ! (k - 1)))"
    by blast
  have kN: "k \<le> nat N"
    using k(1) by simp
  have tk: "take k ?ps = [1..int k]"
    using kN by (rule take_upto_1)
  have 1: "0 \<le> int k \<and> int k \<le> max 0 N \<and> (1 \<le> N \<longrightarrow> 1 \<le> int k)"
    using kN k(2) by auto
  have 2: "perform_search rt site w = (visit_all site ?w1 [1..int k], None)"
    using run k(3) tk by simp
  have 3: "loads (fst (perform_search rt site w)) = loads w @ URL_SEARCH # map page_url [1..int k]"
    unfolding 2 by (simp add: loads_visit_all)
  have 4: "grows site ?w1 j" if j: "1 \<le> j \<and> j < int k" for j
  proof -
    let ?j = "nat (j - 1)"
    have "?j + 1 < k"
      using j by auto
    with k(4) have "fst (perform_search_in_pag_num site (visit_all site ?w1 (take ?j ?ps)) (?ps ! ?j))"
      by blast
    moreover have "take ?j ?ps = [1..j - 1]"
      using j kN take_upto_1[of ?j N] by auto
    moreover have "?ps ! ?j = j"
      using j kN by (subst nth_upto) auto
    ultimately show ?thesis
      using j page_grows[of j site ?w1] by simp
  qed
  have 5: "\<not> grows site ?w1 (int k)" if lt: "int k < N"
  proof -
    from lt have kl: "k < length ?ps"
      by auto
    with k(2) have pos: "0 < k"
      by auto
    from kl k(5) have "\<not> fst (perform_search_in_pag_num site (visit_all site ?w1 (take (k - 1) ?ps)) (?ps ! (k - 1)))"
      by blast
    moreover have "take (k - 1) ?ps = [1..int k - 1]"
      using pos kN take_upto_1[of "k - 1" N] by (auto simp: of_nat_diff)
    moreover have "?ps ! (k - 1) = int k"
      using pos lt by (subst nth_upto) (auto simp: of_nat_diff)
    ultimately show ?thesis
      using pos page_grows[of "int k" site ?w1] by simp
  qed
  show ?thesis
    using 1 2 3 4 5 by (intro exI[of _ "int k"]) blast
qed

text \<open>
  The example listing: page 1 lists A and B, page 2 lists A and C, page 3 lists A and
  B again, and the pagination reads 4.  The run loads the search page and the pages
  1, 2 and 3, stores three records, and never loads page 4.  On the listing whose
  pagination reads \<^verbatim>\<open>4\<close> and then the separator U+001F, \<^verbatim>\<open>int()\<close> raises
  \<^verbatim>\<open>ValueError\<close>: the run ends after the search page, with no listing page loaded
  and nothing stored.
\<close>

theorem perform_search_order_witness:
  "pg_pagination (scenario_site URL_SEARCH) = Some (ascii ''4'') \<and>
   py_int (ascii_runtime 4300) (ascii ''4'') = Inr 4 \<and>
   py_int (ascii_runtime 4300) (ascii ''4'' @ [31]) = Inl ValueError \<and>
   snd (perform_search (ascii_runtime 4300) separator_site empty_world) = Some ValueError \<and>
   loads (fst (perform_search (ascii_runtime 4300) separator_site empty_world)) = [URL_SEARCH] \<and>
   db (fst (perform_search (ascii_runtime 4300) separator_site empty_world)) = [] \<and>
   loads (fst (perform_search (ascii_runtime 4300) scenario_site empty_world)) =
     [URL_SEARCH, page_url 1, page_url 2, page_url 3] \<and>
   length (db (fst (perform_search (ascii_runtime 4300) scenario_site empty_world))) = 3 \<and>
   (\<exists>k. 0 \<le> k \<and> k \<le> max 0 4 \<and>
      loads (fst (perform_search (ascii_runtime 4300) scenario_site empty_world)) =
        loads empty_world @ URL_SEARCH # map page_url [1..k] \<and>
      (k < 4 \<longrightarrow> \<not> grows scenario_site (empty_world\<lparr>loads := loads empty_world @ [URL_SEARCH]\<rparr>) k))"
proof -
  have h1: "pg_pagination (scenario_site URL_SEARCH) = Some (ascii ''4'')"
    by code_simp
  have h2: "py_int (ascii_runtime 4300) (ascii ''4'') = Inr 4"
    by code_simp
  have e: "loads (fst (perform_search (ascii_runtime 4300) scenario_site empty_world)) =
     [URL_SEARCH, page_url 1, page_url 2, page_url 3]"
    "length (db (fst (perform_search (ascii_runtime 4300) scenario_site empty_world))) = 3"
    by code_simp+
  have h3: "py_int (ascii_runtime 4300) (ascii ''4'' @ [31]) = Inl ValueError"
    "snd (perform_search (ascii_runtime 4300) separator_site empty_world) = Some ValueError"
    "loads (fst (perform_search (ascii_runtime 4300) separator_site empty_world)) = [URL_SEARCH]"
    "db (fst (perform_search (ascii_runtime 4300) separator_site empty_world)) = []"
    by code_simp+
  from perform_search_order[of scenario_site "ascii ''4''" "ascii_runtime 4300" 4 empty_world, OF h1 h2] h1 h2 h3 e show ?thesis
    by blast
qed

text \<open>
  C9.  A second discovery run over the same site, on the store that the first run
  left, leaves the store as it is: no record is inserted.  The same holds for the
  discovery of one page, which returns \<^verbatim>\<open>False\<close> the second time: every identity of
  the page is in the store by then.
\<close>

theorem discovery_idempotent:
  "db (fst (perform_search rt site (fst (perform_search rt site w)))) =
     db (fst (perform_search rt site w)) \<and>
   fst (perform_search_in_pag_num site (snd (perform_search_in_pag_num site w p)) p) = False \<and>
   db (snd (perform_search_in_pag_num site (snd (perform_search_in_pag_num site w p)) p)) =
     db (snd (perform_search_in_pag_num site w p))"
proof (intro conjI)
  show "db (fst (perform_search rt site (fst (perform_search rt site w)))) =
     db (fst (perform_search rt site w))"
  proof (cases "pg_pagination (site URL_SEARCH)")
    case None
    then show ?thesis
      by (simp add: perform_search_def Let_def)
  next
    case (Some ptxt)
    show ?thesis
    proof (cases "py_int rt ptxt")
      case (Inl e)
      with Some show ?thesis
        by (simp add: perform_search_def Let_def)
    next
      case (Inr N)
      let ?w1 = "w\<lparr>loads := loads w @ [URL_SEARCH]\<rparr>"
      let ?wf = "search_pages site ?w1 [1..N]"
      let ?w2 = "?wf\<lparr>loads := loads ?wf @ [URL_SEARCH]\<rparr>"
      have 1: "perform_search rt site w = (?wf, None)"
        using Some Inr by (simp add: perform_search_def Let_def)
      have 2: "perform_search rt site ?wf = (search_pages site ?w2 [1..N], None)"
        using Some Inr by (simp add: perform_search_def Let_def)
      have "db ?w2 = db ?wf"
        by simp
      then have "db (search_pages site ?w2 [1..N]) = db ?w2"
        by (rule search_pages_twice)
      then show ?thesis
        by (simp add: 1 2)
    qed
  qed
qed (simp_all add: page_twice)

section \<open>Claims about the details stage and the life of a record\<close>

text \<open>
  C10.  Whenever a details run changes a record, the record was in the store with
  a URL, and it now holds under \<^verbatim>\<open>subtitle\<close> the text of the subtitle element of its
  page, or the empty string when the page has no such element (the key is there in
  both cases).  A details run that ends without an exception changes every record
  that was pending.
\<close>

theorem subtitle_stored:
  assumes "distinct (map fst (db w))" "fetch_details rt site w = (w', err)"
  shows "(lookup_doc (db w') i \<noteq> lookup_doc (db w) i \<longrightarrow>
            (\<exists>d u d'. lookup_doc (db w) i = Some d \<and> d K_URL = Some (VStr u) \<and>
               lookup_doc (db w') i = Some d' \<and>
               d' K_subtitle = Some (VStr (case pg_subtitle (site u) of None \<Rightarrow> [] | Some s \<Rightarrow> s)))) \<and>
         (err = None \<and> lookup_doc (db w) i = Some d0 \<and> pending d0 \<longrightarrow>
            lookup_doc (db w') i \<noteq> lookup_doc (db w) i)"
proof (intro conjI impI)
  assume "lookup_doc (db w') i \<noteq> lookup_doc (db w) i"
  with fetch_details_effect(2)[OF assms, of i] obtain d where
    d: "lookup_doc (db w) i = Some d" "written rt site w w' i d"
    by blast
  then obtain u cd where u: "d K_URL = Some (VStr u)" "car_details rt (site u) = Inr cd"
    "lookup_doc (db w') i = Some (d ++ cd)"
    by (auto simp: written_def)
  have "(d ++ cd) K_subtitle = Some (VStr (case pg_subtitle (site u) of None \<Rightarrow> [] | Some s \<Rightarrow> s))"
    using car_details_subtitle[OF u(2)] by (simp add: map_add_def)
  with d(1) u(1,3) show "\<exists>d u d'. lookup_doc (db w) i = Some d \<and> d K_URL = Some (VStr u) \<and>
               lookup_doc (db w') i = Some d' \<and>
               d' K_subtitle = Some (VStr (case pg_subtitle (site u) of None \<Rightarrow> [] | Some s \<Rightarrow> s))"
    by (intro exI[of _ d] exI[of _ u] exI[of _ "d ++ cd"]) simp
next
  assume a: "err = None \<and> lookup_doc (db w) i = Some d0 \<and> pending d0"
  then have "written rt site w w' i d0"
    using fetch_details_effect(3)[OF assms] by blast
  with a show "lookup_doc (db w') i \<noteq> lookup_doc (db w) i"
    using written_changes by blast
qed

text \<open>
  The pending car on the page without a subtitle gets the subtitle \<^verbatim>\<open>''\<close>, and on
  the page with a subtitle its text.
\<close>

theorem subtitle_stored_witness:
  "(\<exists>d'. lookup_doc (db (fst (fetch_details (ascii_runtime 4300) owners_site one_pending))) 1 = Some d' \<and>
         d' K_subtitle = Some (VStr [])) \<and>
   (\<exists>d'. lookup_doc (db (fst (fetch_details (ascii_runtime 4300) complete_site one_pending))) 1 = Some d' \<and>
         d' K_subtitle = Some (VStr (ascii ''Long Range'')))"
proof -
  have e1: "snd (fetch_details (ascii_runtime 4300) owners_site one_pending) = None"
    by code_simp
  have e2: "snd (fetch_details (ascii_runtime 4300) complete_site one_pending) = None"
    by code_simp
  have r1: "fetch_details (ascii_runtime 4300) owners_site one_pending =
      (fst (fetch_details (ascii_runtime 4300) owners_site one_pending), None)"
    using e1 by (simp add: prod_eq_iff)
  have r2: "fetch_details (ascii_runtime 4300) complete_site one_pending =
      (fst (fetch_details (ascii_runtime 4300) complete_site one_pending), None)"
    using e2 by (simp add: prod_eq_iff)
  note T1 = subtitle_stored[OF demo_pending(1) r1, of 1 "pending_doc car_url_1"]
  note T2 = subtitle_stored[OF demo_pending(1) r2, of 1 "pending_doc car_url_1"]
  from T1 demo_pending(2,3) have
    "\<exists>d u d'. lookup_doc (db one_pending) 1 = Some d \<and> d K_URL = Some (VStr u) \<and>
       lookup_doc (db (fst (fetch_details (ascii_runtime 4300) owners_site one_pending))) 1 = Some d' \<and>
       d' K_subtitle = Some (VStr (case pg_subtitle (owners_site u) of None \<Rightarrow> [] | Some s \<Rightarrow> s))"
    by blast
  then have 1: "\<exists>d'. lookup_doc (db (fst (fetch_details (ascii_runtime 4300) owners_site one_pending))) 1 = Some d' \<and>
         d' K_subtitle = Some (VStr [])"
    by (auto simp: owners_site_def detail_page_def)
  from T2 demo_pending(2,3) have
    "\<exists>d u d'. lookup_doc (db one_pending) 1 = Some d \<and> d K_URL = Some (VStr u) \<and>
       lookup_doc (db (fst (fetch_details (ascii_runtime 4300) complete_site one_pending))) 1 = Some d' \<and>
       d' K_subtitle = Some (VStr (case pg_subtitle (complete_site u) of None \<Rightarrow> [] | Some s \<Rightarrow> s))"
    by blast
  then have 2: "\<exists>d'. lookup_doc (db (fst (fetch_details (ascii_runtime 4300) complete_site one_pending))) 1 = Some d' \<and>
         d' K_subtitle = Some (VStr (ascii ''Long Range''))"
    by (auto simp: complete_site_def detail_page_def)
  from 1 2 show ?thesis
    by blast
qed

text \<open>
  C8.  For a pending record whose detail page has no title element or no price
  element, the details run ends with an exception, and the record is in the store
  afterwards exactly as it was before (still pending, no field written).
\<close>

theorem missing_required_element:
  assumes "distinct (map fst (db w))" "lookup_doc (db w) i = Some d" "pending d"
    "d K_URL = Some (VStr u)" "pg_title (site u) = None \<or> pg_price (site u) = None"
  shows "snd (fetch_details rt site w) \<noteq> None \<and>
         lookup_doc (db (fst (fetch_details rt site w))) i = Some d"
proof -
  let ?w' = "fst (fetch_details rt site w)"
  let ?err = "snd (fetch_details rt site w)"
  have r: "fetch_details rt site w = (?w', ?err)"
    by simp
  have fail: "car_details rt (site u) = Inl AttributeError"
    using assms(5) by (intro car_details_missing) blast
  have nw: "\<not> written rt site w ?w' i d"
    using assms(4) fail by (auto simp: written_def)
  have "?err \<noteq> None"
    using fetch_details_effect(3)[OF assms(1) r _ assms(2,3)] nw by blast
  moreover have "lookup_doc (db ?w') i = Some d"
    using fetch_details_effect(2)[OF assms(1) r, of i] assms(2) nw by auto
  ultimately show ?thesis
    by blast
qed

text \<open>The pending car on the page without a price element.\<close>

theorem missing_required_element_witness:
  "snd (fetch_details (ascii_runtime 4300) no_price_site one_pending) \<noteq> None \<and>
   lookup_doc (db (fst (fetch_details (ascii_runtime 4300) no_price_site one_pending))) 1 =
     Some (pending_doc car_url_1)"
proof -
  have "pg_title (no_price_site car_url_1) = None \<or> pg_price (no_price_site car_url_1) = None"
    by (simp add: no_price_site_def detail_page_def)
  then show ?thesis
    by (rule missing_required_element[OF demo_pending])
qed

text \<open>
  C3.  The claim holds for the subtitle (this is part of C10) and fails for the
  price rating label: \<open>fetch_details\<close> calls \<^verbatim>\<open>get_attribute\<close> on the result of
  \<^verbatim>\<open>get_obj\<close> without the guard that the subtitle has three lines above.  On the page
  with a title, a subtitle and a price and no price rating element, the run raises
  \<^verbatim>\<open>AttributeError\<close> and leaves the record pending with no field written; on the
  page that only lacks the subtitle, the run completes.
\<close>

theorem missing_price_rating_raises:
  "snd (fetch_details (ascii_runtime 4300) no_badge_site one_pending) = Some AttributeError \<and>
   (case lookup_doc (db (fst (fetch_details (ascii_runtime 4300) no_badge_site one_pending))) 1 of
      None \<Rightarrow> None | Some d \<Rightarrow> d K_needs_details) = Some (VBool True) \<and>
   (case lookup_doc (db (fst (fetch_details (ascii_runtime 4300) no_badge_site one_pending))) 1 of
      None \<Rightarrow> None | Some d \<Rightarrow> d K_title) = None \<and>
   snd (fetch_details (ascii_runtime 4300) owners_site one_pending) = None"
  by code_simp

text \<open>
  C1 (as amended).  The features panel gives a label the value of its last entry
  with that label (a later entry replaces an earlier one).  Whenever a details run
  changes a record, then for each label of the panel that has a normalizer
  (\<^verbatim>\<open>Kilometraje\<close>, \<^verbatim>\<open>Potencia\<close>, \<^verbatim>\<open>Tiempo de carga rapida\<close>, \<^verbatim>\<open>Autonomia (WLTP)\<close>,
  \<^verbatim>\<open>Propietarios anteriores\<close>, the two accented letters written plainly here): if the
  panel gives the label a value that is not empty, the record holds the key of the
  label, with the integer of the normalizer, or with the marker \<^verbatim>\<open>None\<close> when the
  normalizer does not accept the value (the key is present, not absent); and if the
  panel has no entry with the label, or gives it the empty value, the record holds
  under the key what it held before the run (nothing, for a record as discovery
  created it).
\<close>

theorem failed_attribute_stored_as_none:
  assumes "distinct (map fst (db w))" "fetch_details rt site w = (w', err)"
    "lookup_doc (db w') i \<noteq> lookup_doc (db w) i"
  shows "\<exists>d u d'. lookup_doc (db w) i = Some d \<and> d K_URL = Some (VStr u) \<and>
           lookup_doc (db w') i = Some d' \<and>
           d' K_Kilometraje =
             field_after (parse_km rt) (panel_value (pg_features (site u)) K_Kilometraje)
               (d K_Kilometraje) \<and>
           d' K_Potencia_Kw =
             field_after (parse_kw rt) (panel_value (pg_features (site u)) K_Potencia)
               (d K_Potencia_Kw) \<and>
           d' K_Tiempo_de_carga_mins =
             field_after (parse_minutes rt) (panel_value (pg_features (site u)) K_Tiempo_de_carga)
               (d K_Tiempo_de_carga_mins) \<and>
           d' K_Autonomia_WLTP_Km =
             field_after (parse_km rt) (panel_value (pg_features (site u)) K_Autonomia_WLTP)
               (d K_Autonomia_WLTP_Km) \<and>
           d' K_Propietarios =
             field_after (parse_int rt) (panel_value (pg_features (site u)) K_Propietarios)
               (d K_Propietarios)"
proof -
  from fetch_details_effect(2)[OF assms(1,2), of i] assms(3) obtain d where
    d: "lookup_doc (db w) i = Some d" "written rt site w w' i d"
    by blast
  then obtain u cd where u: "d K_URL = Some (VStr u)" "car_details rt (site u) = Inr cd"
    "lookup_doc (db w') i = Some (d ++ cd)"
    by (auto simp: written_def)
  have f: "(d ++ cd) k = field_after normalizer (panel_value (pg_features (site u)) label) (d k)"
    if k: "k \<notin> {K_needs_details, K_title, K_subtitle, K_price, K_price_fairness}"
      and st: "\<And>raw. parse_info_pairs rt raw k =
        map_option (\<lambda>val. opt_int (normalizer val)) (truthy (raw label))"
    for k normalizer label
  proof -
    from car_details_field[OF u(2) k] obtain raw where
      raw: "read_info_pairs (pg_features (site u)) Map.empty = Inr raw"
      "cd k = parse_info_pairs rt raw k"
      by blast
    from read_info_pairs_panel[OF raw(1), of label]
    have "raw label = panel_value (pg_features (site u)) label"
      by (simp split: option.splits)
    with raw(2) st[of raw] show ?thesis
      by (intro field_after_written) simp
  qed
  have 1: "(d ++ cd) K_Kilometraje =
      field_after (parse_km rt) (panel_value (pg_features (site u)) K_Kilometraje) (d K_Kilometraje)"
  proof (rule f)
    show "K_Kilometraje \<notin> {K_needs_details, K_title, K_subtitle, K_price, K_price_fairness}"
      by (simp add: K_defs)
  qed (rule stored_Kilometraje)
  have 2: "(d ++ cd) K_Potencia_Kw =
      field_after (parse_kw rt) (panel_value (pg_features (site u)) K_Potencia) (d K_Potencia_Kw)"
  proof (rule f)
    show "K_Potencia_Kw \<notin> {K_needs_details, K_title, K_subtitle, K_price, K_price_fairness}"
      by (simp add: K_defs)
  qed (rule stored_Potencia_Kw)
  have 3: "(d ++ cd) K_Tiempo_de_carga_mins =
      field_after (parse_minutes rt) (panel_value (pg_features (site u)) K_Tiempo_de_carga)
        (d K_Tiempo_de_carga_mins)"
  proof (rule f)
    show "K_Tiempo_de_carga_mins \<notin> {K_needs_details, K_title, K_subtitle, K_price, K_price_fairness}"
      by (simp add: K_defs)
  qed (rule stored_Tiempo_de_carga)
  have 4: "(d ++ cd) K_Autonomia_WLTP_Km =
      field_after (parse_km rt) (panel_value (pg_features (site u)) K_Autonomia_WLTP)
        (d K_Autonomia_WLTP_Km)"
  proof (rule f)
    show "K_Autonomia_WLTP_Km \<notin> {K_needs_details, K_title, K_subtitle, K_price, K_price_fairness}"
      by (simp add: K_defs)
  qed (rule stored_Autonomia)
  have 5: "(d ++ cd) K_Propietarios =
      field_after (parse_int rt) (panel_value (pg_features (site u)) K_Propietarios) (d K_Propietarios)"
  proof (rule f)
    show "K_Propietarios \<notin> {K_needs_details, K_title, K_subtitle, K_price, K_price_fairness}"
      by (simp add: K_defs)
  qed (rule stored_Propietarios)
  show ?thesis
    using d(1) u(1,3) 1 2 3 4 5
    by (intro exI[of _ d] exI[of _ u] exI[of _ "d ++ cd"]) simp
qed

text \<open>
  The pending car on the page whose panel has \<^verbatim>\<open>Propietarios anteriores\<close> with the
  value \<^verbatim>\<open>01\<close>: the completed record has the key with \<^verbatim>\<open>None\<close>, the distance 8000,
  and no power.  On the page whose panel has \<^verbatim>\<open>Kilometraje\<close> with \<^verbatim>\<open>abc\<close> and then
  with \<^verbatim>\<open>8.000 km\<close>, \<^verbatim>\<open>Potencia\<close> with \<^verbatim>\<open>150 kW\<close> and then with \<^verbatim>\<open>150 CV\<close>, and the
  range with an empty value: the record has the distance 8000, the power \<^verbatim>\<open>None\<close>,
  and no range.
\<close>

theorem failed_attribute_stored_as_none_witness:
  "(\<exists>d'. lookup_doc (db (fst (fetch_details (ascii_runtime 4300) owners_site one_pending))) 1 = Some d' \<and>
         d' K_Propietarios = Some VNone \<and> d' K_Kilometraje = Some (VInt 8000) \<and>
         d' K_Potencia_Kw = None) \<and>
   (\<exists>d'. lookup_doc (db (fst (fetch_details (ascii_runtime 4300) repeated_site one_pending))) 1 = Some d' \<and>
         d' K_Kilometraje = Some (VInt 8000) \<and> d' K_Potencia_Kw = Some VNone \<and>
         d' K_Autonomia_WLTP_Km = None)"
proof -
  let ?rt = "ascii_runtime 4300"
  have changed: "lookup_doc (db (fst (fetch_details ?rt site one_pending))) 1 \<noteq>
      lookup_doc (db one_pending) 1"
    if n: "(case lookup_doc (db (fst (fetch_details ?rt site one_pending))) 1 of
      None \<Rightarrow> None | Some d \<Rightarrow> d K_needs_details) = Some (VBool False)" for site
  proof
    assume eq: "lookup_doc (db (fst (fetch_details ?rt site one_pending))) 1 =
      lookup_doc (db one_pending) 1"
    from n have "pending_doc car_url_1 K_needs_details = Some (VBool False)"
      unfolding eq demo_pending(2) by simp
    then show False
      by (simp add: pending_doc_needs)
  qed
  have A: "\<exists>d'. lookup_doc (db (fst (fetch_details ?rt owners_site one_pending))) 1 = Some d' \<and>
         d' K_Propietarios = Some VNone \<and> d' K_Kilometraje = Some (VInt 8000) \<and>
         d' K_Potencia_Kw = None"
  proof -
    have e: "snd (fetch_details ?rt owners_site one_pending) = None"
      by code_simp
    have r: "fetch_details ?rt owners_site one_pending =
        (fst (fetch_details ?rt owners_site one_pending), None)"
      using e by (simp add: prod_eq_iff)
    have n: "(case lookup_doc (db (fst (fetch_details ?rt owners_site one_pending))) 1 of
        None \<Rightarrow> None | Some d \<Rightarrow> d K_needs_details) = Some (VBool False)"
      by code_simp
    from failed_attribute_stored_as_none[OF demo_pending(1) r changed[OF n]] obtain d u d' where
      o: "lookup_doc (db one_pending) 1 = Some d"
      "lookup_doc (db (fst (fetch_details ?rt owners_site one_pending))) 1 = Some d'"
      "d' K_Propietarios =
         field_after (parse_int ?rt) (panel_value (pg_features (owners_site u)) K_Propietarios)
           (d K_Propietarios)"
      "d' K_Kilometraje =
         field_after (parse_km ?rt) (panel_value (pg_features (owners_site u)) K_Kilometraje)
           (d K_Kilometraje)"
      "d' K_Potencia_Kw =
         field_after (parse_kw ?rt) (panel_value (pg_features (owners_site u)) K_Potencia)
           (d K_Potencia_Kw)"
      by blast
    from o(1) have d: "d = pending_doc car_url_1"
      unfolding demo_pending(2) by simp
    have v: "field_after (parse_int ?rt)
        (panel_value [ascii ''Kilometraje'' @ [10] @ ascii ''8.000 km'',
           ascii ''Propietarios anteriores'' @ [10] @ ascii ''01''] K_Propietarios)
        (pending_doc car_url_1 K_Propietarios) = Some VNone"
      "field_after (parse_km ?rt)
        (panel_value [ascii ''Kilometraje'' @ [10] @ ascii ''8.000 km'',
           ascii ''Propietarios anteriores'' @ [10] @ ascii ''01''] K_Kilometraje)
        (pending_doc car_url_1 K_Kilometraje) = Some (VInt 8000)"
      "field_after (parse_kw ?rt)
        (panel_value [ascii ''Kilometraje'' @ [10] @ ascii ''8.000 km'',
           ascii ''Propietarios anteriores'' @ [10] @ ascii ''01''] K_Potencia)
        (pending_doc car_url_1 K_Potencia_Kw) = None"
      by code_simp+
    from o(2-) show ?thesis
      unfolding d example_features v by blast
  qed
  have B: "\<exists>d'. lookup_doc (db (fst (fetch_details ?rt repeated_site one_pending))) 1 = Some d' \<and>
         d' K_Kilometraje = Some (VInt 8000) \<and> d' K_Potencia_Kw = Some VNone \<and>
         d' K_Autonomia_WLTP_Km = None"
  proof -
    have e: "snd (fetch_details ?rt repeated_site one_pending) = None"
      by code_simp
    have r: "fetch_details ?rt repeated_site one_pending =
        (fst (fetch_details ?rt repeated_site one_pending), None)"
      using e by (simp add: prod_eq_iff)
    have n: "(case lookup_doc (db (fst (fetch_details ?rt repeated_site one_pending))) 1 of
        None \<Rightarrow> None | Some d \<Rightarrow> d K_needs_details) = Some (VBool False)"
      by code_simp
    from failed_attribute_stored_as_none[OF demo_pending(1) r changed[OF n]] obtain d u d' where
      o: "lookup_doc (db one_pending) 1 = Some d"
      "lookup_doc (db (fst (fetch_details ?rt repeated_site one_pending))) 1 = Some d'"
      "d' K_Kilometraje =
         field_after (parse_km ?rt) (panel_value (pg_features (repeated_site u)) K_Kilometraje)
           (d K_Kilometraje)"
      "d' K_Potencia_Kw =
         field_after (parse_kw ?rt) (panel_value (pg_features (repeated_site u)) K_Potencia)
           (d K_Potencia_Kw)"
      "d' K_Autonomia_WLTP_Km =
         field_after (parse_km ?rt) (panel_value (pg_features (repeated_site u)) K_Autonomia_WLTP)
           (d K_Autonomia_WLTP_Km)"
      by blast
    from o(1) have d: "d = pending_doc car_url_1"
      unfolding demo_pending(2) by simp
    let ?fs = "[ascii ''Kilometraje'' @ [10] @ ascii ''abc'',
      ascii ''Kilometraje'' @ [10] @ ascii ''8.000 km'',
      ascii ''Potencia'' @ [10] @ ascii ''150 kW'',
      ascii ''Potencia'' @ [10] @ ascii ''150 CV'',
      ascii ''Autonom'' @ [237] @ ascii ''a (WLTP)'' @ [10]]"
    have v: "field_after (parse_km ?rt) (panel_value ?fs K_Kilometraje)
        (pending_doc car_url_1 K_Kilometraje) = Some (VInt 8000)"
      "field_after (parse_kw ?rt) (panel_value ?fs K_Potencia)
        (pending_doc car_url_1 K_Potencia_Kw) = Some VNone"
      "field_after (parse_km ?rt) (panel_value ?fs K_Autonomia_WLTP)
        (pending_doc car_url_1 K_Autonomia_WLTP_Km) = None"
      by code_simp+
    from o(2-) show ?thesis
      unfolding d example_features v by blast
  qed
  from A B show ?thesis
    by (rule conjI)
qed

text \<open>
  C1 as it is stated fails on this page: the key of the previous owners is in the
  completed record, with the value \<^verbatim>\<open>None\<close> (next to the distance, which was
  accepted and is stored as 8000).
\<close>

theorem failed_attribute_counterexample:
  "(case lookup_doc (db (fst (fetch_details (ascii_runtime 4300) owners_site one_pending))) 1 of
      None \<Rightarrow> None | Some d \<Rightarrow> d K_Propietarios) = Some VNone \<and>
   (case lookup_doc (db (fst (fetch_details (ascii_runtime 4300) owners_site one_pending))) 1 of
      None \<Rightarrow> None | Some d \<Rightarrow> d K_Kilometraje) = Some (VInt 8000)"
  by code_simp

text \<open>
  C7.  From a store with distinct record ids, under any sequence of discovery runs,
  page discoveries and details runs, on any sites: a record whose \<^verbatim>\<open>needs_details\<close>
  is false stays in the store exactly as it is; a record that an operation creates
  has \<^verbatim>\<open>needs_details\<close> true; and when an operation changes a record, the record was
  pending and has \<^verbatim>\<open>needs_details\<close> false afterwards.  So the flag goes from true
  to false at most once and never back.
\<close>

theorem needs_details_monotone:
  assumes "distinct (map fst (db w))"
  shows "(lookup_doc (db w) i = Some d \<and> query_eq K_needs_details (VBool False) d \<longrightarrow>
            lookup_doc (db (run_ops rt w ops)) i = Some d) \<and>
         (lookup_doc (db w) i = None \<longrightarrow>
            (case lookup_doc (db (run_op rt w op)) i of None \<Rightarrow> True
             | Some d' \<Rightarrow> d' K_needs_details = Some (VBool True))) \<and>
         (lookup_doc (db w) i = Some d \<and> lookup_doc (db (run_op rt w op)) i \<noteq> Some d \<longrightarrow>
            pending d \<and> (\<exists>d'. lookup_doc (db (run_op rt w op)) i = Some d' \<and>
                              d' K_needs_details = Some (VBool False)))"
  using run_ops_keeps_completed[OF assms, of i d rt ops] run_op_effect[OF assms, of i rt op]
  by blast

text \<open>
  A completed record survives a discovery run, a details run and a page discovery;
  the first record of a discovery run on the empty store is pending; the details
  run on the page with every element completes the pending car.
\<close>

theorem needs_details_monotone_witness:
  "lookup_doc (db (run_ops (ascii_runtime 4300) done_world
       [Discover scenario_site, Details complete_site, DiscoverPage scenario_site 1])) 1 =
     Some ((pending_doc car_url_1)(K_needs_details \<mapsto> VBool False)) \<and>
   (case lookup_doc (db (run_op (ascii_runtime 4300) empty_world (Discover scenario_site))) 1 of None \<Rightarrow> True
    | Some d' \<Rightarrow> d' K_needs_details = Some (VBool True)) \<and>
   pending (pending_doc car_url_1) \<and>
   (\<exists>d'. lookup_doc (db (run_op (ascii_runtime 4300) one_pending (Details complete_site))) 1 = Some d' \<and>
         d' K_needs_details = Some (VBool False))"
proof -
  have d0: "distinct (map fst (db done_world))" "distinct (map fst (db empty_world))"
    by (simp_all add: done_world_def empty_world_def)
  have l0: "lookup_doc (db done_world) 1 = Some ((pending_doc car_url_1)(K_needs_details \<mapsto> VBool False))"
    by (simp add: done_world_def lookup_doc_def)
  have q0: "query_eq K_needs_details (VBool False) ((pending_doc car_url_1)(K_needs_details \<mapsto> VBool False))"
    by (simp add: query_eq_def)
  have l1: "lookup_doc (db empty_world) 1 = None"
    by (simp add: empty_world_def lookup_doc_def)
  have n: "(case lookup_doc (db (run_op (ascii_runtime 4300) one_pending (Details complete_site))) 1 of
      None \<Rightarrow> None | Some d \<Rightarrow> d K_needs_details) = Some (VBool False)"
    by code_simp
  have c: "lookup_doc (db (run_op (ascii_runtime 4300) one_pending (Details complete_site))) 1 \<noteq>
      Some (pending_doc car_url_1)"
  proof
    assume eq: "lookup_doc (db (run_op (ascii_runtime 4300) one_pending (Details complete_site))) 1 =
      Some (pending_doc car_url_1)"
    from n have "pending_doc car_url_1 K_needs_details = Some (VBool False)"
      unfolding eq by simp
    then show False
      by (simp add: pending_doc_needs)
  qed
  from needs_details_monotone[OF d0(1), of 1 "(pending_doc car_url_1)(K_needs_details \<mapsto> VBool False)"]
    l0 q0
  have 1: "lookup_doc (db (run_ops (ascii_runtime 4300) done_world
       [Discover scenario_site, Details complete_site, DiscoverPage scenario_site 1])) 1 =
     Some ((pending_doc car_url_1)(K_needs_details \<mapsto> VBool False))"
    by blast
  from needs_details_monotone[OF d0(2), of 1 _ "ascii_runtime 4300" _ "Discover scenario_site"] l1
  have 2: "(case lookup_doc (db (run_op (ascii_runtime 4300) empty_world (Discover scenario_site))) 1 of None \<Rightarrow> True
    | Some d' \<Rightarrow> d' K_needs_details = Some (VBool True))"
    by blast
  from needs_details_monotone[OF demo_pending(1), of 1 "pending_doc car_url_1" "ascii_runtime 4300" _ "Details complete_site"]
    demo_pending(2) c
  have 3: "pending (pending_doc car_url_1) \<and>
   (\<exists>d'. lookup_doc (db (run_op (ascii_runtime 4300) one_pending (Details complete_site))) 1 = Some d' \<and>
         d' K_needs_details = Some (VBool False))"
    by blast
  from 1 2 3 show ?thesis
    by blast
qed

end
